theory Spec2Isabelle
  imports Complex_Main
begin

section \<open>The shared interval scheduler of useInterval.ts\<close>

text \<open>
  The module keeps one process-wide registry \<open>schedulers\<close> from a delay to a scheduler
  closure. Every scheduler closure owns a private environment: its delay \<open>ms\<close>, its array
  \<open>callbacks\<close> and its variable \<open>timeout\<close>. The environments live in a heap indexed by the
  allocation number of the scheduler, so that two schedulers created for the same delay
  at different times are different instances.
\<close>

subsection \<open>JavaScript numbers and the delay key\<close>

datatype jsnum = NaN | PosInf | NegInf | Num real

text \<open>\<open>ms | 0\<close> is the abstract operation ToInt32 of ECMAScript applied to \<open>ms\<close>.\<close>

definition js_truncate :: "real \<Rightarrow> int" where
  "js_truncate r = (if r < 0 then - \<lfloor>- r\<rfloor> else \<lfloor>r\<rfloor>)"

definition toInt32 :: "jsnum \<Rightarrow> int" where
  "toInt32 x =
     (case x of
        Num r \<Rightarrow>
          (let int32bit = js_truncate r mod 2 ^ 32
           in if int32bit \<ge> 2 ^ 31 then int32bit - 2 ^ 32 else int32bit)
      | _ \<Rightarrow> 0)"

text \<open>\<open>Math.max(ms | 0, 0)\<close>, line 36.\<close>

definition delay_key :: "jsnum \<Rightarrow> int" where
  "delay_key ms = max (toInt32 ms) 0"

subsection \<open>Callbacks of the caller\<close>

text \<open>
  A callback handed to \<open>schedule\<close> is caller code. What the scheduler can observe of one
  run of it is the sequence of calls it makes back into handles (\<open>schedule\<close>, \<open>cancel\<close>)
  and whether it ends by throwing. \<open>Fn f body\<close> is the function named \<open>f\<close> whose run
  performs \<open>body\<close>; \<open>Schedule h cb ms args\<close> is the call \<open>schedule(cb, ms, ...args)\<close> on the
  handle \<open>h\<close>, \<open>Cancel h\<close> the call \<open>cancel()\<close> on it, \<open>Throw e\<close> is \<open>throw e\<close>.
\<close>

datatype ucb = Fn (fname: nat) (fbody: "action list")
and action = Schedule nat ucb jsnum "nat list" | Cancel nat | Throw nat

text \<open>
  The arrow function \<open>() => { cb(...args) }\<close> of line 36: a fresh object at every call of
  \<open>doSchedule\<close> (\<open>cid\<close> is its identity), capturing \<open>cb\<close> and \<open>args\<close>.
\<close>

record closure =
  cid :: nat
  cfn :: ucb
  cargs :: "nat list"

subsection \<open>State\<close>

record group =
  g_ms :: int
  callbacks :: "closure list"
  timeout :: "nat option"

text \<open>What a pending host timer runs: \<open>invokeCallbacks\<close> of a scheduler, or \<open>() => { throw e }\<close>.\<close>

datatype task = Tick nat | Rethrow nat

text \<open>
  Modelled from the spec: the function \<open>noop\<close>, which the module imports from \<open>./utils\<close>
  and which is not among the sources. It is taken to do what the documentation of
  \<open>useInterval\<close> says of a call made before the component is mounted ("it is a no-op"):
  it returns and changes nothing.

  The variables of one \<open>createIntervalManager\<close> call. \<open>doSchedule\<close> and \<open>doCancel\<close> are
  assigned together (lines 33 and 41, line 50): \<open>live\<close> tells that they hold the closures
  of the effect rather than \<open>noop\<close>. \<open>abort\<close> is the variable of line 31; its value is the
  function returned by a scheduler, which captures the scheduler's environment and \<open>cb\<close>.
\<close>

record manager =
  live :: bool
  abort :: "(nat \<times> closure) option"

datatype event = Invoked nat nat "nat list" | Uncaught nat

record state =
  schedulers :: "int \<rightharpoonup> nat"
  groups :: "nat \<Rightarrow> group"
  next_group :: nat
  managers :: "nat \<Rightarrow> manager"
  timers :: "(nat \<times> task) list"
  next_timer :: nat
  next_cid :: nat
  trace :: "event list"

definition blank :: "int \<Rightarrow> group" where
  "blank ms = \<lparr>g_ms = ms, callbacks = [], timeout = None\<rparr>"

definition init :: state where
  "init = \<lparr>schedulers = Map.empty, groups = (\<lambda>_. blank 0), next_group = 0,
            managers = (\<lambda>_. \<lparr>live = False, abort = None\<rparr>), timers = [],
            next_timer = 0, next_cid = 0, trace = []\<rparr>"

subsection \<open>Host timers\<close>

definition setTimeout :: "task \<Rightarrow> state \<Rightarrow> nat \<times> state" where
  "setTimeout k s =
     (next_timer s,
      s\<lparr>timers := timers s @ [(next_timer s, k)], next_timer := Suc (next_timer s)\<rparr>)"

definition clearTimeout :: "nat option \<Rightarrow> state \<Rightarrow> state" where
  "clearTimeout t s =
     (case t of None \<Rightarrow> s
      | Some i \<Rightarrow> s\<lparr>timers := filter (\<lambda>p. fst p \<noteq> i) (timers s)\<rparr>)"

subsection \<open>getOrCreateScheduler and the scheduler closure\<close>

definition getOrCreateScheduler :: "int \<Rightarrow> state \<Rightarrow> nat \<times> state" where
  "getOrCreateScheduler ms s =
     (case schedulers s ms of
        Some g \<Rightarrow> (g, s)
      | None \<Rightarrow>
          (let g = next_group s
           in (g, s\<lparr>groups := (groups s)(g := blank ms), next_group := Suc g,
                     schedulers := (schedulers s)(ms \<mapsto> g)\<rparr>)))"

text \<open>\<open>Array.prototype.indexOf\<close> compares by identity; \<open>None\<close> is its \<open>-1\<close>.\<close>

fun indexOf :: "closure list \<Rightarrow> closure \<Rightarrow> nat option" where
  "indexOf [] c = None"
| "indexOf (x # xs) c = (if cid x = cid c then Some 0 else map_option Suc (indexOf xs c))"

definition splice1 :: "nat \<Rightarrow> 'a list \<Rightarrow> 'a list" where
  "splice1 i xs = take i xs @ drop (Suc i) xs"

definition set_callbacks :: "nat \<Rightarrow> closure list \<Rightarrow> state \<Rightarrow> state" where
  "set_callbacks g cbs s = s\<lparr>groups := (groups s)(g := (groups s g)\<lparr>callbacks := cbs\<rparr>)\<rparr>"

text \<open>\<open>timeout = setTimeout(invokeCallbacks, ms)\<close>, lines 91 and 96.\<close>

definition arm :: "nat \<Rightarrow> state \<Rightarrow> state" where
  "arm g s =
     (case setTimeout (Tick g) s of
        (t, s') \<Rightarrow> s'\<lparr>groups := (groups s')(g := (groups s' g)\<lparr>timeout := Some t\<rparr>)\<rparr>)"

text \<open>Lines 94 to 107: the scheduler of environment \<open>g\<close> applied to \<open>cb\<close>; the result is the abort function.\<close>

definition scheduler :: "nat \<Rightarrow> closure \<Rightarrow> state \<Rightarrow> (nat \<times> closure) \<times> state" where
  "scheduler g cb s =
     ((g, cb),
      (if indexOf (callbacks (groups s g)) cb = None
       then (let s' = set_callbacks g (callbacks (groups s g) @ [cb]) s
             in if length (callbacks (groups s' g)) = 1 then arm g s' else s')
       else s))"

text \<open>Lines 99 to 106: a call of the function returned by the scheduler.\<close>

definition run_abort :: "nat \<times> closure \<Rightarrow> state \<Rightarrow> state" where
  "run_abort a s =
     (case a of (g, cb) \<Rightarrow>
        (case indexOf (callbacks (groups s g)) cb of
           None \<Rightarrow> s
         | Some index \<Rightarrow>
             (let s' = set_callbacks g (splice1 index (callbacks (groups s g))) s
              in if length (callbacks (groups s' g)) = 0
                 then clearTimeout (timeout (groups s' g))
                        (s'\<lparr>schedulers := (schedulers s')(g_ms (groups s' g) := None)\<rparr>)
                 else s')))"

subsection \<open>The interval manager\<close>

definition set_abort :: "nat \<Rightarrow> (nat \<times> closure) option \<Rightarrow> state \<Rightarrow> state" where
  "set_abort h a s = s\<lparr>managers := (managers s)(h := (managers s h)\<lparr>abort := a\<rparr>)\<rparr>"

definition doCancel :: "nat \<Rightarrow> state \<Rightarrow> state" where
  "doCancel h s =
     (if live (managers s h)
      then (case abort (managers s h) of
              None \<Rightarrow> s
            | Some a \<Rightarrow> set_abort h None (run_abort a s))
      else s)"

definition doSchedule :: "nat \<Rightarrow> ucb \<Rightarrow> jsnum \<Rightarrow> nat list \<Rightarrow> state \<Rightarrow> state" where
  "doSchedule h cb ms args s =
     (if live (managers s h)
      then (let s1 = doCancel h s;
                (g, s2) = getOrCreateScheduler (delay_key ms) s1;
                c = \<lparr>cid = next_cid s2, cfn = cb, cargs = args\<rparr>;
                (a, s3) = scheduler g c (s2\<lparr>next_cid := Suc (next_cid s2)\<rparr>)
            in set_abort h (Some a) s3)
      else s)"

text \<open>The effect callback (line 30) and the cleanup function it returns (line 48).\<close>

definition effect :: "nat \<Rightarrow> state \<Rightarrow> state" where
  "effect h s = s\<lparr>managers := (managers s)(h := \<lparr>live = True, abort = None\<rparr>)\<rparr>"

definition cleanup :: "nat \<Rightarrow> state \<Rightarrow> state" where
  "cleanup h s =
     (let s' = doCancel h s
      in s'\<lparr>managers := (managers s')(h := (managers s' h)\<lparr>live := False\<rparr>)\<rparr>)"

definition schedule :: "nat \<Rightarrow> ucb \<Rightarrow> jsnum \<Rightarrow> nat list \<Rightarrow> state \<Rightarrow> state" where
  "schedule h cb ms args s = doSchedule h cb ms args s"

definition cancel :: "nat \<Rightarrow> state \<Rightarrow> state" where
  "cancel h s = doCancel h s"

subsection \<open>Running callbacks\<close>

text \<open>One run of caller code: the state after it and the value thrown, if any.\<close>

fun run_actions :: "action list \<Rightarrow> state \<Rightarrow> state \<times> nat option" where
  "run_actions [] s = (s, None)"
| "run_actions (Schedule h cb ms args # as) s = run_actions as (schedule h cb ms args s)"
| "run_actions (Cancel h # as) s = run_actions as (cancel h s)"
| "run_actions (Throw e # as) s = (s, Some e)"

definition call_closure :: "closure \<Rightarrow> state \<Rightarrow> state \<times> nat option" where
  "call_closure c s =
     (case cfn c of
        Fn f body \<Rightarrow> run_actions body (s\<lparr>trace := trace s @ [Invoked (cid c) f (cargs c)]\<rparr>))"

text \<open>Lines 82 to 88: the body of the loop, \<open>try { cb() } catch (e) { setTimeout(() => { throw e }) }\<close>.\<close>

definition try_call :: "closure \<Rightarrow> state \<Rightarrow> state" where
  "try_call c s =
     (case call_closure c s of
        (s', None) \<Rightarrow> s'
      | (s', Some e) \<Rightarrow> snd (setTimeout (Rethrow e) s'))"

fun weight :: "ucb \<Rightarrow> nat" and weight_action :: "action \<Rightarrow> nat" where
  "weight (Fn f body) = Suc (sum_list (map weight_action body))"
| "weight_action (Schedule h cb ms args) = weight cb"
| "weight_action (Cancel h) = 0"
| "weight_action (Throw e) = 0"

definition pending_weight :: "nat \<Rightarrow> nat \<Rightarrow> state \<Rightarrow> nat" where
  "pending_weight g i s = sum_list (map (\<lambda>c. weight (cfn c)) (drop i (callbacks (groups s g))))"

text \<open>
  The \<open>for ... of\<close> loop of line 81 walks the live array by index: every step reads the
  current length and the element at the current index. It ends because each call of a
  callback takes its own weight out of what is still ahead of the index and puts back
  at most the weights of the callbacks it schedules.
\<close>

lemma sum_drop_le:
  fixes f :: "'a \<Rightarrow> nat"
  shows "sum_list (map f (drop (Suc i) xs)) \<le> sum_list (map f (drop i xs))"
proof (cases "i < length xs")
  case True
  then have "drop i xs = xs ! i # drop (Suc i) xs" by (simp add: Cons_nth_drop_Suc)
  then show ?thesis by simp
next
  case False
  then show ?thesis by simp
qed

lemma sum_drop_splice1:
  fixes f :: "'a \<Rightarrow> nat"
  shows "sum_list (map f (drop i (splice1 k xs))) \<le> sum_list (map f (drop i xs))"
proof (induction xs arbitrary: i k)
  case Nil
  then show ?case by (simp add: splice1_def)
next
  case (Cons x xs)
  show ?case
  proof (cases k)
    case 0
    have "sum_list (map f (drop i xs)) \<le> sum_list (map f (drop i (x # xs)))"
      using sum_drop_le [of f _ xs] by (cases i) simp_all
    with 0 show ?thesis by (simp add: splice1_def)
  next
    case (Suc k')
    show ?thesis
    proof (cases i)
      case 0
      have "sum_list (map f (splice1 k' xs)) \<le> sum_list (map f xs)"
        using Cons.IH [of 0 k'] by simp
      with 0 Suc show ?thesis by (simp add: splice1_def)
    next
      case (Suc i')
      with \<open>k = Suc k'\<close> Cons.IH [of i' k'] show ?thesis by (simp add: splice1_def)
    qed
  qed
qed

lemma pending_weight_simps [simp]:
  "pending_weight g i (s\<lparr>timers := ts\<rparr>) = pending_weight g i s"
  "pending_weight g i (s\<lparr>next_timer := n\<rparr>) = pending_weight g i s"
  "pending_weight g i (s\<lparr>next_cid := n\<rparr>) = pending_weight g i s"
  "pending_weight g i (s\<lparr>next_group := n\<rparr>) = pending_weight g i s"
  "pending_weight g i (s\<lparr>schedulers := m\<rparr>) = pending_weight g i s"
  "pending_weight g i (s\<lparr>managers := hs\<rparr>) = pending_weight g i s"
  "pending_weight g i (s\<lparr>trace := tr\<rparr>) = pending_weight g i s"
  by (simp_all add: pending_weight_def)

lemma pending_weight_clearTimeout [simp]:
  "pending_weight g i (clearTimeout t s) = pending_weight g i s"
  by (simp add: clearTimeout_def split: option.splits)

lemma pending_weight_setTimeout [simp]:
  "pending_weight g i (snd (setTimeout k s)) = pending_weight g i s"
  by (simp add: setTimeout_def)

lemma pending_weight_set_abort [simp]:
  "pending_weight g i (set_abort h a s) = pending_weight g i s"
  by (simp add: set_abort_def)

lemma pending_weight_arm [simp]:
  "pending_weight g i (arm g' s) = pending_weight g i s"
  by (simp add: arm_def setTimeout_def pending_weight_def)

lemma pending_weight_set_callbacks:
  "pending_weight g i (set_callbacks g' cbs s) =
     (if g = g' then sum_list (map (\<lambda>c. weight (cfn c)) (drop i cbs)) else pending_weight g i s)"
  by (simp add: set_callbacks_def pending_weight_def)

lemma pending_weight_run_abort:
  "pending_weight g i (run_abort a s) \<le> pending_weight g i s"
proof (cases a)
  case (Pair g' cb)
  show ?thesis
  proof (cases "indexOf (callbacks (groups s g')) cb")
    case None
    with Pair show ?thesis by (simp add: run_abort_def)
  next
    case (Some k)
    have "pending_weight g i (set_callbacks g' (splice1 k (callbacks (groups s g'))) s)
            \<le> pending_weight g i s"
      using sum_drop_splice1 [of "\<lambda>c. weight (cfn c)" i k "callbacks (groups s g')"]
      by (simp add: pending_weight_set_callbacks) (simp add: pending_weight_def)
    with Pair Some show ?thesis by (simp add: run_abort_def Let_def)
  qed
qed

lemma pending_weight_doCancel:
  "pending_weight g i (doCancel h s) \<le> pending_weight g i s"
  by (simp add: doCancel_def pending_weight_run_abort split: option.splits)

lemma pending_weight_getOrCreateScheduler:
  "pending_weight g i (snd (getOrCreateScheduler ms s)) \<le> pending_weight g i s"
  by (simp add: getOrCreateScheduler_def Let_def pending_weight_def blank_def split: option.splits)

lemma sum_drop_snoc:
  fixes f :: "'a \<Rightarrow> nat"
  shows "sum_list (map f (drop i (xs @ [x]))) \<le> sum_list (map f (drop i xs)) + f x"
  by (cases "i \<le> length xs") simp_all

lemma pending_weight_scheduler:
  "pending_weight g i (snd (scheduler g' c s)) \<le> pending_weight g i s + weight (cfn c)"
proof -
  have "pending_weight g i (set_callbacks g' (callbacks (groups s g') @ [c]) s)
          \<le> pending_weight g i s + weight (cfn c)"
    using sum_drop_snoc [of "\<lambda>c. weight (cfn c)" i "callbacks (groups s g')" c]
    by (simp add: pending_weight_set_callbacks) (simp add: pending_weight_def)
  then show ?thesis by (simp add: scheduler_def Let_def)
qed

lemma pending_weight_doSchedule:
  "pending_weight g i (doSchedule h cb ms args s) \<le> pending_weight g i s + weight cb"
proof (cases "live (managers s h)")
  case False
  then show ?thesis by (simp add: doSchedule_def)
next
  case True
  obtain g' s2 where g: "getOrCreateScheduler (delay_key ms) (doCancel h s) = (g', s2)"
    by (cases "getOrCreateScheduler (delay_key ms) (doCancel h s)")
  define c where "c = \<lparr>cid = next_cid s2, cfn = cb, cargs = args\<rparr>"
  obtain a s3 where sc: "scheduler g' c (s2\<lparr>next_cid := Suc (next_cid s2)\<rparr>) = (a, s3)"
    by (cases "scheduler g' c (s2\<lparr>next_cid := Suc (next_cid s2)\<rparr>)")
  have "pending_weight g i s2 \<le> pending_weight g i (doCancel h s)"
    using pending_weight_getOrCreateScheduler [of g i "delay_key ms" "doCancel h s"] g by simp
  then have 1: "pending_weight g i s2 \<le> pending_weight g i s"
    using pending_weight_doCancel [of g i h s] by simp
  have 2: "pending_weight g i s3 \<le> pending_weight g i s2 + weight cb"
    using pending_weight_scheduler [of g i g' c "s2\<lparr>next_cid := Suc (next_cid s2)\<rparr>"] sc
    by (simp add: c_def)
  have "doSchedule h cb ms args s = set_abort h (Some a) s3"
    using True g sc by (simp add: doSchedule_def Let_def c_def)
  with 1 2 show ?thesis by simp
qed

lemma pending_weight_run_actions:
  "pending_weight g i (fst (run_actions as s)) \<le> pending_weight g i s + sum_list (map weight_action as)"
proof (induction as s rule: run_actions.induct)
  case (2 h cb ms args as s)
  then show ?case
    using pending_weight_doSchedule [of g i h cb ms args s] by (simp add: schedule_def)
next
  case (3 h as s)
  then show ?case
    using pending_weight_doCancel [of g i h s] by (simp add: cancel_def)
qed simp_all

lemma pending_weight_try_call:
  "Suc (pending_weight g i (try_call c s)) \<le> pending_weight g i s + weight (cfn c)"
proof (cases "cfn c")
  case (Fn f body)
  let ?s = "s\<lparr>trace := trace s @ [Invoked (cid c) f (cargs c)]\<rparr>"
  have "pending_weight g i (fst (run_actions body ?s)) \<le> pending_weight g i s + sum_list (map weight_action body)"
    using pending_weight_run_actions [of g i body ?s] by simp
  with Fn show ?thesis
    by (cases "run_actions body ?s") (simp add: try_call_def call_closure_def split: option.splits)
qed

function for_of :: "nat \<Rightarrow> nat \<Rightarrow> state \<Rightarrow> state" where
  "for_of g i s =
     (if i < length (callbacks (groups s g))
      then for_of g (Suc i) (try_call (callbacks (groups s g) ! i) s)
      else s)"
  by pat_completeness auto
termination
proof (relation "measure (\<lambda>(g, i, s). pending_weight g i s)")
  show "wf (measure (\<lambda>(g, i, s). pending_weight g i s))" by simp
next
  fix g i :: nat and s :: state
  assume lt: "i < length (callbacks (groups s g))"
  let ?c = "callbacks (groups s g) ! i"
  have "pending_weight g i s = weight (cfn ?c) + pending_weight g (Suc i) s"
    using lt by (simp add: pending_weight_def flip: Cons_nth_drop_Suc)
  with pending_weight_try_call [of g "Suc i" ?c s]
  show "((g, Suc i, try_call ?c s), (g, i, s)) \<in> measure (\<lambda>(g, i, s). pending_weight g i s)"
    by simp
qed

declare for_of.simps [simp del]

text \<open>Lines 80 to 92.\<close>

definition invokeCallbacks :: "nat \<Rightarrow> state \<Rightarrow> state" where
  "invokeCallbacks g s = arm g (for_of g 0 s)"

text \<open>The host runs the pending timer \<open>t\<close>: a timer fires once and is no longer pending when its task runs.\<close>

definition fire :: "nat \<Rightarrow> state \<Rightarrow> state" where
  "fire t s =
     (case map_of (timers s) t of
        None \<Rightarrow> s
      | Some k \<Rightarrow>
          (let s' = s\<lparr>timers := filter (\<lambda>p. fst p \<noteq> t) (timers s)\<rparr>
           in case k of
                Tick g \<Rightarrow> invokeCallbacks g s'
              | Rethrow e \<Rightarrow> s'\<lparr>trace := trace s' @ [Uncaught e]\<rparr>))"

section \<open>Basic facts\<close>

lemma run_abort_frame [simp]:
  "managers (run_abort a s) = managers s"
  "next_cid (run_abort a s) = next_cid s"
  "next_group (run_abort a s) = next_group s"
  "next_timer (run_abort a s) = next_timer s"
  "trace (run_abort a s) = trace s"
  by (simp_all add: run_abort_def set_callbacks_def clearTimeout_def Let_def split: prod.splits option.splits)

lemma doCancel_not_live: "\<not> live (managers s h) \<Longrightarrow> doCancel h s = s"
  by (simp add: doCancel_def)

lemma doCancel_no_abort: "abort (managers s h) = None \<Longrightarrow> doCancel h s = s"
  by (simp add: doCancel_def)

lemma doCancel_live [simp]: "live (managers (doCancel h s) h') = live (managers s h')"
  by (simp add: doCancel_def set_abort_def split: option.splits)

lemma doCancel_abort:
  "live (managers s h) \<Longrightarrow> abort (managers (doCancel h s) h) = None"
  by (simp add: doCancel_def set_abort_def split: option.splits)

lemma doCancel_idem: "doCancel h (doCancel h s) = doCancel h s"
proof (cases "live (managers s h)")
  case True
  then show ?thesis
    using doCancel_abort [of s h] by (simp add: doCancel_no_abort)
next
  case False
  then show ?thesis by (simp add: doCancel_not_live)
qed

lemma js_truncate_of_int [simp]: "js_truncate (of_int n) = n"
  by (simp add: js_truncate_def)



section \<open>The invariant of the registry, the closures and the timers\<close>

text \<open>
  \<open>wf_at cur s\<close> holds of every state the operations reach from \<open>init\<close>; \<open>cur\<close> is the
  scheduler whose \<open>invokeCallbacks\<close> is running, if one is. \<open>registry_ok\<close>: the registry
  holds exactly the schedulers with a callback, under their own delay. \<open>closures_ok\<close>: the
  arrow functions in the arrays are allocated ones, no array holds one twice, and the one
  an \<open>abort\<close> variable refers to is in no other scheduler's array. \<open>timers_ok\<close>: timer
  identities are unique, a pending \<open>invokeCallbacks\<close> timer is the one its scheduler's
  \<open>timeout\<close> names, every scheduler with a callback has one (but the running one, whose
  timer has fired).
\<close>

lemma indexOf_None_iff: "indexOf xs c = None \<longleftrightarrow> cid c \<notin> cid ` set xs"
  by (induction xs) auto

lemma indexOf_Some_nth: "indexOf xs c = Some i \<Longrightarrow> i < length xs \<and> cid (xs ! i) = cid c"
  by (induction xs arbitrary: i) (auto split: if_splits)

lemma indexOf_first: "indexOf xs c = Some i \<Longrightarrow> j < i \<Longrightarrow> cid (xs ! j) \<noteq> cid c"
proof (induction xs arbitrary: i j)
  case Nil
  then show ?case by simp
next
  case (Cons x xs)
  then show ?case by (cases j) (auto split: if_splits)
qed

lemma set_splice1: "set (splice1 i xs) \<subseteq> set xs"
  unfolding splice1_def by (auto dest: in_set_takeD in_set_dropD)

lemma splice1_cids:
  "indexOf xs c = Some i \<Longrightarrow> map cid (splice1 i xs) = remove1 (cid c) (map cid xs)"
proof (induction xs arbitrary: i)
  case Nil
  then show ?case by simp
next
  case (Cons x xs)
  then show ?case by (auto simp: splice1_def split: if_splits)
qed

lemma distinct_splice1:
  "indexOf xs c = Some i \<Longrightarrow> distinct (map cid xs) \<Longrightarrow>
   distinct (map cid (splice1 i xs)) \<and> cid c \<notin> cid ` set (splice1 i xs)"
proof -
  assume a: "indexOf xs c = Some i" "distinct (map cid xs)"
  have "cid ` set (splice1 i xs) = set (map cid (splice1 i xs))" by simp
  also have "\<dots> = set (map cid xs) - {cid c}" using a by (simp add: splice1_cids)
  finally show ?thesis using a by (simp add: splice1_cids)
qed

lemma splice1_length: "i < length xs \<Longrightarrow> length (splice1 i xs) = length xs - 1"
  by (simp add: splice1_def)


definition registry_ok :: "state \<Rightarrow> bool" where
  "registry_ok s \<longleftrightarrow>
     (\<forall>d g. schedulers s d = Some g \<longrightarrow>
        g < next_group s \<and> g_ms (groups s g) = d \<and> callbacks (groups s g) \<noteq> []) \<and>
     (\<forall>g. callbacks (groups s g) \<noteq> [] \<longrightarrow>
        g < next_group s \<and> schedulers s (g_ms (groups s g)) = Some g)"

definition closures_ok :: "state \<Rightarrow> bool" where
  "closures_ok s \<longleftrightarrow>
     (\<forall>g. distinct (map cid (callbacks (groups s g)))) \<and>
     (\<forall>g c. c \<in> set (callbacks (groups s g)) \<longrightarrow> cid c < next_cid s) \<and>
     (\<forall>h g c. abort (managers s h) = Some (g, c) \<longrightarrow>
        cid c < next_cid s \<and>
        (\<forall>g' c'. c' \<in> set (callbacks (groups s g')) \<longrightarrow> cid c' = cid c \<longrightarrow> g' = g))"

definition timers_ok :: "nat option \<Rightarrow> state \<Rightarrow> bool" where
  "timers_ok cur s \<longleftrightarrow>
     distinct (map fst (timers s)) \<and>
     (\<forall>t k. (t, k) \<in> set (timers s) \<longrightarrow> t < next_timer s) \<and>
     (\<forall>g t. timeout (groups s g) = Some t \<longrightarrow> t < next_timer s) \<and>
     (\<forall>t g. (t, Tick g) \<in> set (timers s) \<longrightarrow>
        g < next_group s \<and> timeout (groups s g) = Some t \<and> cur \<noteq> Some g) \<and>
     (\<forall>g. callbacks (groups s g) \<noteq> [] \<longrightarrow> cur \<noteq> Some g \<longrightarrow>
        (\<exists>t. timeout (groups s g) = Some t \<and> (t, Tick g) \<in> set (timers s))) \<and>
     (\<forall>g. cur = Some g \<longrightarrow>
        g < next_group s \<and>
        (\<forall>t k. timeout (groups s g) = Some t \<longrightarrow> (t, k) \<notin> set (timers s)))"

definition wf_at :: "nat option \<Rightarrow> state \<Rightarrow> bool" where
  "wf_at cur s \<longleftrightarrow> registry_ok s \<and> closures_ok s \<and> timers_ok cur s"

lemma wf_at_init: "wf_at None init"
  by (simp add: wf_at_def registry_ok_def closures_ok_def timers_ok_def init_def blank_def)

lemma run_abort_cases [case_names absent shrink evict]:
  obtains
    "indexOf (callbacks (groups s g)) cb = None" "run_abort (g, cb) s = s"
  | i where "indexOf (callbacks (groups s g)) cb = Some i"
      "splice1 i (callbacks (groups s g)) \<noteq> []"
      "run_abort (g, cb) s = set_callbacks g (splice1 i (callbacks (groups s g))) s"
  | i where "indexOf (callbacks (groups s g)) cb = Some i"
      "splice1 i (callbacks (groups s g)) = []"
      "run_abort (g, cb) s =
         clearTimeout (timeout (groups s g))
           ((set_callbacks g [] s)\<lparr>schedulers := (schedulers s)(g_ms (groups s g) := None)\<rparr>)"
proof (cases "indexOf (callbacks (groups s g)) cb")
  case None
  then show ?thesis using that(1) by (simp add: run_abort_def)
next
  case (Some i)
  show ?thesis
  proof (cases "splice1 i (callbacks (groups s g)) = []")
    case True
    with Some show ?thesis using that(3) [of i]
      by (simp add: run_abort_def Let_def set_callbacks_def)
  next
    case False
    with Some show ?thesis using that(2) [of i]
      by (simp add: run_abort_def Let_def set_callbacks_def)
  qed
qed

lemma registry_okD1:
  "registry_ok s \<Longrightarrow> schedulers s d = Some g \<Longrightarrow>
   g < next_group s \<and> g_ms (groups s g) = d \<and> callbacks (groups s g) \<noteq> []"
  unfolding registry_ok_def by blast

lemma registry_okD2:
  "registry_ok s \<Longrightarrow> callbacks (groups s g) \<noteq> [] \<Longrightarrow>
   g < next_group s \<and> schedulers s (g_ms (groups s g)) = Some g"
  unfolding registry_ok_def by blast

lemma registry_ok_run_abort:
  assumes "registry_ok s"
  shows "registry_ok (run_abort (g, cb) s)"
proof (cases rule: run_abort_cases [where s = s and g = g and cb = cb])
  case absent
  with assms show ?thesis by simp
next
  case (shrink i)
  from shrink(1) have ne: "callbacks (groups s g) \<noteq> []" by auto
  let ?s = "set_callbacks g (splice1 i (callbacks (groups s g))) s"
  have "g' < next_group ?s \<and> g_ms (groups ?s g') = d \<and> callbacks (groups ?s g') \<noteq> []"
    if "schedulers ?s d = Some g'" for d g'
    using that registry_okD1 [OF assms, of d g'] shrink(2) by (auto simp: set_callbacks_def)
  moreover have "g' < next_group ?s \<and> schedulers ?s (g_ms (groups ?s g')) = Some g'"
    if "callbacks (groups ?s g') \<noteq> []" for g'
    using that registry_okD2 [OF assms, of g'] registry_okD2 [OF assms ne]
    by (cases "g' = g") (simp_all add: set_callbacks_def)
  ultimately show ?thesis unfolding registry_ok_def shrink(3) by blast
next
  case (evict i)
  from evict(1) have ne: "callbacks (groups s g) \<noteq> []" by auto
  note g = registry_okD2 [OF assms ne]
  let ?s = "run_abort (g, cb) s"
  have sch: "schedulers ?s = (schedulers s)(g_ms (groups s g) := None)"
    and grp: "groups ?s = (groups s)(g := (groups s g)\<lparr>callbacks := []\<rparr>)"
    and nxt: "next_group ?s = next_group s"
    by (simp_all add: evict(3) set_callbacks_def clearTimeout_def split: option.splits)
  have "g' < next_group ?s \<and> g_ms (groups ?s g') = d \<and> callbacks (groups ?s g') \<noteq> []"
    if "schedulers ?s d = Some g'" for d g'
  proof -
    from that have d: "d \<noteq> g_ms (groups s g)" "schedulers s d = Some g'"
      by (auto simp: sch split: if_splits)
    with registry_okD1 [OF assms d(2)] have "g' \<noteq> g" by auto
    with registry_okD1 [OF assms d(2)] show ?thesis by (simp add: grp nxt)
  qed
  moreover have "g' < next_group ?s \<and> schedulers ?s (g_ms (groups ?s g')) = Some g'"
    if "callbacks (groups ?s g') \<noteq> []" for g'
  proof -
    from that have g': "g' \<noteq> g" "callbacks (groups s g') \<noteq> []"
      by (auto simp: grp split: if_splits)
    from registry_okD2 [OF assms g'(2)] g g'(1)
    have "g_ms (groups s g') \<noteq> g_ms (groups s g)" by auto
    with registry_okD2 [OF assms g'(2)] g'(1) show ?thesis by (simp add: grp nxt sch)
  qed
  ultimately show ?thesis unfolding registry_ok_def by blast
qed

lemma closures_okD1: "closures_ok s \<Longrightarrow> distinct (map cid (callbacks (groups s g)))"
  unfolding closures_ok_def by blast

lemma closures_okD2: "closures_ok s \<Longrightarrow> c \<in> set (callbacks (groups s g)) \<Longrightarrow> cid c < next_cid s"
  unfolding closures_ok_def by blast

lemma closures_okD3:
  "closures_ok s \<Longrightarrow> abort (managers s h) = Some (g, c) \<Longrightarrow> cid c < next_cid s"
  unfolding closures_ok_def by blast

lemma closures_okD4:
  "closures_ok s \<Longrightarrow> abort (managers s h) = Some (g, c) \<Longrightarrow>
   c' \<in> set (callbacks (groups s g')) \<Longrightarrow> cid c' = cid c \<Longrightarrow> g' = g"
  unfolding closures_ok_def by blast

lemma closures_ok_shrink:
  assumes ok: "closures_ok s"
    and d: "\<And>g. distinct (map cid (callbacks (groups s' g)))"
    and sub: "\<And>g. set (callbacks (groups s' g)) \<subseteq> set (callbacks (groups s g))"
    and n: "next_cid s' = next_cid s"
    and m: "\<And>h. abort (managers s' h) = None \<or> abort (managers s' h) = abort (managers s h)"
  shows "closures_ok s'"
proof -
  have "cid c < next_cid s'" if "c \<in> set (callbacks (groups s' g))" for g c
    using that sub [of g] closures_okD2 [OF ok, of c g] n by auto
  moreover have "cid c < next_cid s' \<and>
      (\<forall>g' c'. c' \<in> set (callbacks (groups s' g')) \<longrightarrow> cid c' = cid c \<longrightarrow> g' = g)"
    if a: "abort (managers s' h) = Some (g, c)" for h g c
  proof -
    from a m [of h] have a': "abort (managers s h) = Some (g, c)" by auto
    have "g' = g" if "c' \<in> set (callbacks (groups s' g'))" "cid c' = cid c" for g' c'
      using closures_okD4 [OF ok a', of c' g'] that sub [of g'] by auto
    with closures_okD3 [OF ok a'] n show ?thesis by auto
  qed
  ultimately show ?thesis using d unfolding closures_ok_def by blast
qed

lemma closures_ok_run_abort:
  assumes "closures_ok s"
  shows "closures_ok (run_abort (g, cb) s)"
proof -
  let ?s = "run_abort (g, cb) s"
  have "\<exists>i. indexOf (callbacks (groups s g)) cb = Some i \<and>
           groups ?s = (groups s)(g := (groups s g)\<lparr>callbacks := splice1 i (callbacks (groups s g))\<rparr>)"
    if "?s \<noteq> s"
    using that
    by (cases rule: run_abort_cases [where s = s and g = g and cb = cb])
       (auto simp: set_callbacks_def clearTimeout_def split: option.splits)
  then consider "?s = s"
    | i where "indexOf (callbacks (groups s g)) cb = Some i"
        "groups ?s = (groups s)(g := (groups s g)\<lparr>callbacks := splice1 i (callbacks (groups s g))\<rparr>)"
    by blast
  then show ?thesis
  proof cases
    case 1
    with assms show ?thesis by simp
  next
    case 2
    show ?thesis
    proof (rule closures_ok_shrink [OF assms])
      fix g'
      show "distinct (map cid (callbacks (groups ?s g')))"
        using distinct_splice1 [OF 2(1) closures_okD1 [OF assms, of g]] closures_okD1 [OF assms, of g']
        by (simp add: 2(2))
      show "set (callbacks (groups ?s g')) \<subseteq> set (callbacks (groups s g'))"
        using set_splice1 [of i "callbacks (groups s g)"] by (simp add: 2(2))
    qed simp_all
  qed
qed

lemma timers_okD_distinct: "timers_ok cur s \<Longrightarrow> distinct (map fst (timers s))"
  unfolding timers_ok_def by blast

lemma timers_okD_bound: "timers_ok cur s \<Longrightarrow> (t, k) \<in> set (timers s) \<Longrightarrow> t < next_timer s"
  unfolding timers_ok_def by blast

lemma timers_okD_timeout: "timers_ok cur s \<Longrightarrow> timeout (groups s g) = Some t \<Longrightarrow> t < next_timer s"
  unfolding timers_ok_def by blast

lemma timers_okD_tick:
  "timers_ok cur s \<Longrightarrow> (t, Tick g) \<in> set (timers s) \<Longrightarrow>
   g < next_group s \<and> timeout (groups s g) = Some t \<and> cur \<noteq> Some g"
  unfolding timers_ok_def by blast

lemma timers_okD_armed:
  "timers_ok cur s \<Longrightarrow> callbacks (groups s g) \<noteq> [] \<Longrightarrow> cur \<noteq> Some g \<Longrightarrow>
   \<exists>t. timeout (groups s g) = Some t \<and> (t, Tick g) \<in> set (timers s)"
  unfolding timers_ok_def by blast

lemma timers_okD_cur:
  "timers_ok (Some g) s \<Longrightarrow> g < next_group s \<and> (\<forall>t k. timeout (groups s g) = Some t \<longrightarrow> (t, k) \<notin> set (timers s))"
  unfolding timers_ok_def by blast

lemma timers_okI:
  assumes "distinct (map fst (timers s))"
    and "\<And>t k. (t, k) \<in> set (timers s) \<Longrightarrow> t < next_timer s"
    and "\<And>g t. timeout (groups s g) = Some t \<Longrightarrow> t < next_timer s"
    and "\<And>t g. (t, Tick g) \<in> set (timers s) \<Longrightarrow>
           g < next_group s \<and> timeout (groups s g) = Some t \<and> cur \<noteq> Some g"
    and "\<And>g. callbacks (groups s g) \<noteq> [] \<Longrightarrow> cur \<noteq> Some g \<Longrightarrow>
           \<exists>t. timeout (groups s g) = Some t \<and> (t, Tick g) \<in> set (timers s)"
    and "\<And>g. cur = Some g \<Longrightarrow>
           g < next_group s \<and> (\<forall>t k. timeout (groups s g) = Some t \<longrightarrow> (t, k) \<notin> set (timers s))"
  shows "timers_ok cur s"
  unfolding timers_ok_def using assms by blast

lemma distinct_fst_unique:
  "distinct (map fst ts) \<Longrightarrow> (t, k) \<in> set ts \<Longrightarrow> (t, k') \<in> set ts \<Longrightarrow> k = k'"
  by (meson eq_key_imp_eq_value)

lemma timers_ok_run_abort:
  assumes ok: "timers_ok cur s"
  shows "timers_ok cur (run_abort (g, cb) s)"
proof (cases rule: run_abort_cases [where s = s and g = g and cb = cb])
  case absent
  with ok show ?thesis by simp
next
  case (shrink i)
  from shrink(1) have ne: "callbacks (groups s g) \<noteq> []" by auto
  let ?s = "run_abort (g, cb) s"
  have eqs: "timers ?s = timers s" "next_timer ?s = next_timer s" "next_group ?s = next_group s"
    "\<And>g'. timeout (groups ?s g') = timeout (groups s g')"
    "\<And>g'. callbacks (groups ?s g') \<noteq> [] \<Longrightarrow> callbacks (groups s g') \<noteq> []"
    using ne by (auto simp: shrink(3) set_callbacks_def split: if_splits)
  show ?thesis
  proof (rule timers_okI)
    fix g' assume "callbacks (groups ?s g') \<noteq> []" "cur \<noteq> Some g'"
    with timers_okD_armed [OF ok eqs(5)]
    show "\<exists>t. timeout (groups ?s g') = Some t \<and> (t, Tick g') \<in> set (timers ?s)"
      by (simp add: eqs)
  qed (use ok in \<open>auto simp: eqs timers_okD_distinct dest: timers_okD_bound timers_okD_timeout timers_okD_tick timers_okD_cur\<close>)
next
  case (evict i)
  from evict(1) have ne: "callbacks (groups s g) \<noteq> []" by auto
  let ?s = "run_abort (g, cb) s"
  have eqs: "next_timer ?s = next_timer s" "next_group ?s = next_group s"
    "\<And>g'. timeout (groups ?s g') = timeout (groups s g')"
    "\<And>g'. callbacks (groups ?s g') \<noteq> [] \<Longrightarrow> callbacks (groups s g') \<noteq> [] \<and> g' \<noteq> g"
    by (auto simp: evict(3) set_callbacks_def clearTimeout_def split: option.splits if_splits)
  have tm: "timers ?s = (case timeout (groups s g) of None \<Rightarrow> timers s
              | Some t \<Rightarrow> filter (\<lambda>p. fst p \<noteq> t) (timers s))"
    by (auto simp: evict(3) set_callbacks_def clearTimeout_def split: option.splits)
  have sub: "set (timers ?s) \<subseteq> set (timers s)"
    by (auto simp: tm split: option.splits)
  show ?thesis
  proof (rule timers_okI)
    show "distinct (map fst (timers ?s))"
      using timers_okD_distinct [OF ok] by (simp add: tm distinct_map_filter split: option.splits)
  next
    fix g' assume a: "callbacks (groups ?s g') \<noteq> []" "cur \<noteq> Some g'"
    with eqs(4) have g': "callbacks (groups s g') \<noteq> []" "g' \<noteq> g" by auto
    from timers_okD_armed [OF ok g'(1) a(2)] obtain t'
      where t': "timeout (groups s g') = Some t'" "(t', Tick g') \<in> set (timers s)" by blast
    have "t' \<noteq> t" if t: "timeout (groups s g) = Some t" for t
    proof (cases "cur = Some g")
      case True
      with ok t t'(2) show ?thesis using timers_okD_cur [of g s] by auto
    next
      case False
      from timers_okD_armed [OF ok ne False] t have "(t, Tick g) \<in> set (timers s)" by auto
      with t'(2) g'(2) distinct_fst_unique [OF timers_okD_distinct [OF ok], of t "Tick g" "Tick g'"]
      show ?thesis by auto
    qed
    with t' show "\<exists>t. timeout (groups ?s g') = Some t \<and> (t, Tick g') \<in> set (timers ?s)"
      by (auto simp: eqs tm split: option.splits)
  next
    fix g' assume c: "cur = Some g'"
    with timers_okD_cur [of g' s] ok sub
    show "g' < next_group ?s \<and> (\<forall>t k. timeout (groups ?s g') = Some t \<longrightarrow> (t, k) \<notin> set (timers ?s))"
      by (auto simp: eqs)
  qed (use ok sub in \<open>auto simp: eqs dest: timers_okD_bound timers_okD_timeout timers_okD_tick\<close>)
qed

lemma wf_at_run_abort: "wf_at cur s \<Longrightarrow> wf_at cur (run_abort (g, cb) s)"
  by (simp add: wf_at_def registry_ok_run_abort closures_ok_run_abort timers_ok_run_abort)

lemma registry_ok_cong:
  assumes "schedulers s' = schedulers s" and "next_group s' = next_group s"
    and "\<And>g. g_ms (groups s' g) = g_ms (groups s g)"
    and "\<And>g. callbacks (groups s' g) = [] \<longleftrightarrow> callbacks (groups s g) = []"
  shows "registry_ok s' = registry_ok s"
  unfolding registry_ok_def by (simp add: assms)

lemma timers_ok_cong:
  assumes "timers s' = timers s" and "next_timer s' = next_timer s"
    and "next_group s' = next_group s"
    and "\<And>g. timeout (groups s' g) = timeout (groups s g)"
    and "\<And>g. callbacks (groups s' g) = [] \<longleftrightarrow> callbacks (groups s g) = []"
  shows "timers_ok cur s' = timers_ok cur s"
  unfolding timers_ok_def by (simp add: assms)

lemma set_abort_frame [simp]:
  "schedulers (set_abort h a s) = schedulers s"
  "groups (set_abort h a s) = groups s"
  "next_group (set_abort h a s) = next_group s"
  "timers (set_abort h a s) = timers s"
  "next_timer (set_abort h a s) = next_timer s"
  "next_cid (set_abort h a s) = next_cid s"
  "trace (set_abort h a s) = trace s"
  "managers (set_abort h a s) = (managers s)(h := (managers s h)\<lparr>abort := a\<rparr>)"
  by (simp_all add: set_abort_def)

lemma wf_at_doCancel:
  assumes "wf_at cur s"
  shows "wf_at cur (doCancel h s)"
proof (cases "live (managers s h) \<and> abort (managers s h) \<noteq> None")
  case False
  with assms show ?thesis by (auto simp: doCancel_def split: option.splits)
next
  case True
  then obtain g cb where a: "abort (managers s h) = Some (g, cb)" by auto
  let ?s = "run_abort (g, cb) s"
  from assms have wf: "registry_ok ?s" "closures_ok ?s" "timers_ok cur ?s"
    using wf_at_run_abort [of cur s g cb] by (simp_all add: wf_at_def)
  have "registry_ok (set_abort h None ?s)"
    using wf(1) registry_ok_cong [of "set_abort h None ?s" ?s] by simp
  moreover have "timers_ok cur (set_abort h None ?s)"
    using wf(3) timers_ok_cong [of "set_abort h None ?s" ?s] by simp
  moreover have "closures_ok (set_abort h None ?s)"
    by (rule closures_ok_shrink [OF wf(2)]) (simp_all add: closures_okD1 [OF wf(2)])
  ultimately show ?thesis using True a by (simp add: doCancel_def wf_at_def)
qed

lemma closures_ok_push:
  assumes ok: "closures_ok s" and c: "cid c = next_cid s"
    and n: "next_cid s' = Suc (next_cid s)"
    and cbs: "\<And>g'. callbacks (groups s' g') =
                (if g' = g then callbacks (groups s g) @ [c] else callbacks (groups s g'))"
    and m: "\<And>h'. abort (managers s' h') = (if h' = h then Some (g, c) else abort (managers s h'))"
  shows "closures_ok s'"
proof -
  have fresh: "cid x \<noteq> cid c" if "x \<in> set (callbacks (groups s g'))" for x g'
    using closures_okD2 [OF ok that] c by simp
  have 1: "distinct (map cid (callbacks (groups s' g')))" for g'
    using closures_okD1 [OF ok, of g'] by (auto simp: cbs dest: fresh)
  have 2: "cid x < next_cid s'" if "x \<in> set (callbacks (groups s' g'))" for x g'
    using that closures_okD2 [OF ok, of x g'] c n by (auto simp: cbs split: if_splits)
  have 3: "cid x < next_cid s' \<and>
      (\<forall>g' c'. c' \<in> set (callbacks (groups s' g')) \<longrightarrow> cid c' = cid x \<longrightarrow> g' = g0)"
    if a: "abort (managers s' h') = Some (g0, x)" for h' g0 x
  proof (cases "h' = h")
    case True
    with a m have "g0 = g" "x = c" by auto
    with c n fresh show ?thesis by (auto simp: cbs split: if_splits)
  next
    case False
    with a m have a': "abort (managers s h') = Some (g0, x)" by auto
    from closures_okD3 [OF ok a'] c have "cid x \<noteq> cid c" "cid x < next_cid s'" using n by auto
    with closures_okD4 [OF ok a'] show ?thesis by (auto simp: cbs split: if_splits)
  qed
  show ?thesis unfolding closures_ok_def using 1 2 3 by blast
qed

lemma doSchedule_not_live: "\<not> live (managers s h) \<Longrightarrow> doSchedule h cb ms args s = s"
  by (simp add: doSchedule_def)

lemma doSchedule_existing:
  assumes "live (managers s h)"
    and "schedulers (doCancel h s) (delay_key ms) = Some g"
    and "indexOf (callbacks (groups (doCancel h s) g))
           \<lparr>cid = next_cid (doCancel h s), cfn = cb, cargs = args\<rparr> = None"
    and "callbacks (groups (doCancel h s) g) \<noteq> []"
  shows "doSchedule h cb ms args s =
     set_abort h (Some (g, \<lparr>cid = next_cid (doCancel h s), cfn = cb, cargs = args\<rparr>))
       (set_callbacks g
          (callbacks (groups (doCancel h s) g) @ [\<lparr>cid = next_cid (doCancel h s), cfn = cb, cargs = args\<rparr>])
          ((doCancel h s)\<lparr>next_cid := Suc (next_cid (doCancel h s))\<rparr>))"
  using assms
  by (simp add: doSchedule_def getOrCreateScheduler_def scheduler_def set_callbacks_def Let_def)

lemma doSchedule_fresh:
  assumes "live (managers s h)"
    and "schedulers (doCancel h s) (delay_key ms) = None"
  shows "doSchedule h cb ms args s =
     set_abort h (Some (next_group (doCancel h s), \<lparr>cid = next_cid (doCancel h s), cfn = cb, cargs = args\<rparr>))
       ((doCancel h s)
          \<lparr>schedulers := (schedulers (doCancel h s))(delay_key ms \<mapsto> next_group (doCancel h s)),
           groups := (groups (doCancel h s))(next_group (doCancel h s) :=
              \<lparr>g_ms = delay_key ms,
               callbacks = [\<lparr>cid = next_cid (doCancel h s), cfn = cb, cargs = args\<rparr>],
               timeout = Some (next_timer (doCancel h s))\<rparr>),
           next_group := Suc (next_group (doCancel h s)),
           timers := timers (doCancel h s) @ [(next_timer (doCancel h s), Tick (next_group (doCancel h s)))],
           next_timer := Suc (next_timer (doCancel h s)),
           next_cid := Suc (next_cid (doCancel h s))\<rparr>)"
  using assms
  by (simp add: doSchedule_def getOrCreateScheduler_def scheduler_def set_callbacks_def Let_def
      arm_def setTimeout_def blank_def set_abort_def)

lemma wf_at_doSchedule:
  assumes wf0: "wf_at cur s"
  shows "wf_at cur (doSchedule h cb ms args s)"
proof (cases "live (managers s h)")
  case False
  with wf0 show ?thesis by (simp add: doSchedule_not_live)
next
  case True
  define s1 where "s1 = doCancel h s"
  define c where "c = \<lparr>cid = next_cid s1, cfn = cb, cargs = args\<rparr>"
  from wf0 have wf: "registry_ok s1" "closures_ok s1" "timers_ok cur s1"
    using wf_at_doCancel [of cur s h] by (simp_all add: wf_at_def s1_def)
  have fresh: "indexOf (callbacks (groups s1 g)) c = None" for g
    by (auto simp: indexOf_None_iff c_def dest: closures_okD2 [OF wf(2)])
  show ?thesis
  proof (cases "schedulers s1 (delay_key ms)")
    case (Some g)
    note g = registry_okD1 [OF wf(1) Some]
    define s' where "s' = set_abort h (Some (g, c))
       (set_callbacks g (callbacks (groups s1 g) @ [c]) (s1\<lparr>next_cid := Suc (next_cid s1)\<rparr>))"
    have eq: "doSchedule h cb ms args s = s'"
      using doSchedule_existing [OF True, of ms g cb args] Some fresh [of g] g
      by (simp add: s1_def c_def s'_def)
    have "registry_ok s' = registry_ok s1"
      using g by (intro registry_ok_cong) (auto simp: s'_def set_callbacks_def)
    moreover have "timers_ok cur s' = timers_ok cur s1"
      using g by (intro timers_ok_cong) (auto simp: s'_def set_callbacks_def)
    moreover have "closures_ok s'"
      by (rule closures_ok_push [OF wf(2), of c _ g h]) (auto simp: s'_def c_def set_callbacks_def)
    ultimately show ?thesis using wf by (simp add: eq wf_at_def)
  next
    case None
    define g where "g = next_group s1"
    define s' where "s' = set_abort h (Some (g, c))
       (s1\<lparr>schedulers := (schedulers s1)(delay_key ms \<mapsto> g),
           groups := (groups s1)(g := \<lparr>g_ms = delay_key ms, callbacks = [c],
                                      timeout = Some (next_timer s1)\<rparr>),
           next_group := Suc g,
           timers := timers s1 @ [(next_timer s1, Tick g)],
           next_timer := Suc (next_timer s1),
           next_cid := Suc (next_cid s1)\<rparr>)"
    have eq: "doSchedule h cb ms args s = s'"
      using doSchedule_fresh [OF True, of ms cb args] None
      by (simp add: s1_def c_def s'_def g_def)
    have empty: "callbacks (groups s1 g) = []"
      using registry_okD2 [OF wf(1), of g] by (auto simp: g_def)
    have reg: "registry_ok s'"
    proof -
      have "g' < next_group s' \<and> g_ms (groups s' g') = d \<and> callbacks (groups s' g') \<noteq> []"
        if "schedulers s' d = Some g'" for d g'
      proof (cases "d = delay_key ms")
        case True
        with that show ?thesis by (simp add: s'_def)
      next
        case False
        with that have "schedulers s1 d = Some g'" by (simp add: s'_def)
        from registry_okD1 [OF wf(1) this] show ?thesis by (auto simp: s'_def g_def)
      qed
      moreover have "g' < next_group s' \<and> schedulers s' (g_ms (groups s' g')) = Some g'"
        if "callbacks (groups s' g') \<noteq> []" for g'
      proof (cases "g' = g")
        case True
        then show ?thesis by (simp add: s'_def)
      next
        case False
        with that have ne: "callbacks (groups s1 g') \<noteq> []" by (simp add: s'_def)
        from registry_okD2 [OF wf(1) ne] None have "g_ms (groups s1 g') \<noteq> delay_key ms" by auto
        with registry_okD2 [OF wf(1) ne] False show ?thesis by (simp add: s'_def g_def)
      qed
      ultimately show ?thesis unfolding registry_ok_def by blast
    qed
    have clo: "closures_ok s'"
      by (rule closures_ok_push [OF wf(2), of c _ g h]) (auto simp: s'_def c_def empty)
    have notick: "(t, Tick g) \<notin> set (timers s1)" for t
      using timers_okD_tick [OF wf(3), of t g] by (auto simp: g_def)
    have curg: "cur \<noteq> Some g"
      using wf(3) timers_okD_cur [of _ s1] by (cases cur) (auto simp: g_def)
    have tim: "timers_ok cur s'"
    proof (rule timers_okI)
      show "distinct (map fst (timers s'))"
        using timers_okD_distinct [OF wf(3)]
        by (auto simp: s'_def dest: timers_okD_bound [OF wf(3)])
    next
      fix t k assume "(t, k) \<in> set (timers s')"
      then show "t < next_timer s'"
        using timers_okD_bound [OF wf(3), of t k] by (auto simp: s'_def)
    next
      fix g' t assume "timeout (groups s' g') = Some t"
      then show "t < next_timer s'"
        using timers_okD_timeout [OF wf(3), of g' t] by (auto simp: s'_def split: if_splits)
    next
      fix t g' assume "(t, Tick g') \<in> set (timers s')"
      then show "g' < next_group s' \<and> timeout (groups s' g') = Some t \<and> cur \<noteq> Some g'"
        using timers_okD_tick [OF wf(3), of t g'] curg notick
        by (auto simp: s'_def g_def)
    next
      fix g' assume a: "callbacks (groups s' g') \<noteq> []" "cur \<noteq> Some g'"
      show "\<exists>t. timeout (groups s' g') = Some t \<and> (t, Tick g') \<in> set (timers s')"
      proof (cases "g' = g")
        case True
        then show ?thesis by (simp add: s'_def)
      next
        case False
        with a timers_okD_armed [OF wf(3), of g'] show ?thesis by (auto simp: s'_def)
      qed
    next
      fix g' assume c: "cur = Some g'"
      with curg have "g' \<noteq> g" by auto
      with c wf(3) timers_okD_cur [of g' s1]
      show "g' < next_group s' \<and> (\<forall>t k. timeout (groups s' g') = Some t \<longrightarrow> (t, k) \<notin> set (timers s'))"
        by (auto simp: s'_def g_def dest: timers_okD_timeout [OF wf(3)])
    qed
    from reg clo tim show ?thesis by (simp add: eq wf_at_def)
  qed
qed

lemma closures_ok_cong:
  assumes "\<And>g. callbacks (groups s' g) = callbacks (groups s g)"
    and "next_cid s' = next_cid s"
    and "\<And>h. abort (managers s' h) = abort (managers s h)"
  shows "closures_ok s' = closures_ok s"
  unfolding closures_ok_def by (simp add: assms)

lemma wf_at_trace [simp]: "wf_at cur (s\<lparr>trace := tr\<rparr>) = wf_at cur s"
  by (simp add: wf_at_def registry_ok_def closures_ok_def timers_ok_def)

lemma wf_at_run_actions: "wf_at cur s \<Longrightarrow> wf_at cur (fst (run_actions as s))"
proof (induction as s rule: run_actions.induct)
  case (2 h cb ms args as s)
  then show ?case by (simp add: schedule_def wf_at_doSchedule)
next
  case (3 h as s)
  then show ?case by (simp add: cancel_def wf_at_doCancel)
qed simp_all

lemma wf_at_call_closure: "wf_at cur s \<Longrightarrow> wf_at cur (fst (call_closure c s))"
  by (cases "cfn c") (simp add: call_closure_def wf_at_run_actions)

lemma wf_at_rethrow:
  assumes "wf_at cur s"
  shows "wf_at cur (snd (setTimeout (Rethrow e) s))"
proof -
  let ?s = "snd (setTimeout (Rethrow e) s)"
  from assms have ok: "timers_ok cur s" by (simp add: wf_at_def)
  have "timers_ok cur ?s"
  proof (rule timers_okI)
    show "distinct (map fst (timers ?s))"
      using timers_okD_distinct [OF ok]
      by (auto simp: setTimeout_def dest: timers_okD_bound [OF ok])
  next
    fix g' assume "cur = Some g'"
    with ok timers_okD_cur [of g' s]
    show "g' < next_group ?s \<and> (\<forall>t k. timeout (groups ?s g') = Some t \<longrightarrow> (t, k) \<notin> set (timers ?s))"
      by (auto simp: setTimeout_def dest: timers_okD_timeout [OF ok])
  next
    fix g' assume "callbacks (groups ?s g') \<noteq> []" "cur \<noteq> Some g'"
    with timers_okD_armed [OF ok, of g']
    show "\<exists>t. timeout (groups ?s g') = Some t \<and> (t, Tick g') \<in> set (timers ?s)"
      by (auto simp: setTimeout_def)
  next
    fix t k assume "(t, k) \<in> set (timers ?s)"
    then show "t < next_timer ?s"
      by (auto simp: setTimeout_def dest: timers_okD_bound [OF ok])
  next
    fix g' t assume "timeout (groups ?s g') = Some t"
    then show "t < next_timer ?s"
      by (auto simp: setTimeout_def dest: timers_okD_timeout [OF ok])
  next
    fix t g' assume "(t, Tick g') \<in> set (timers ?s)"
    then show "g' < next_group ?s \<and> timeout (groups ?s g') = Some t \<and> cur \<noteq> Some g'"
      using timers_okD_tick [OF ok, of t g'] by (auto simp: setTimeout_def)
  qed
  moreover have "registry_ok ?s = registry_ok s"
    by (intro registry_ok_cong) (simp_all add: setTimeout_def)
  moreover have "closures_ok ?s = closures_ok s"
    by (intro closures_ok_cong) (simp_all add: setTimeout_def)
  ultimately show ?thesis using assms by (simp add: wf_at_def)
qed

lemma wf_at_try_call: "wf_at cur s \<Longrightarrow> wf_at cur (try_call c s)"
  using wf_at_call_closure [of cur s c]
  by (cases "call_closure c s") (auto simp: try_call_def wf_at_rethrow split: option.splits)

lemma wf_at_for_of: "wf_at cur s \<Longrightarrow> wf_at cur (for_of g i s)"
proof (induction g i s rule: for_of.induct)
  case (1 g i s)
  show ?case
  proof (cases "i < length (callbacks (groups s g))")
    case True
    with 1 show ?thesis by (subst for_of.simps) (simp add: wf_at_try_call)
  next
    case False
    with 1 show ?thesis by (subst for_of.simps) simp
  qed
qed

lemma arm_eq:
  "arm g s = s\<lparr>timers := timers s @ [(next_timer s, Tick g)], next_timer := Suc (next_timer s),
               groups := (groups s)(g := (groups s g)\<lparr>timeout := Some (next_timer s)\<rparr>)\<rparr>"
  by (simp add: arm_def setTimeout_def)

lemma wf_at_arm:
  assumes "wf_at (Some g) s"
  shows "wf_at None (arm g s)"
proof -
  let ?s = "arm g s"
  from assms have ok: "timers_ok (Some g) s" by (simp add: wf_at_def)
  note cur = timers_okD_cur [OF ok]
  have "timers_ok None ?s"
  proof (rule timers_okI)
    show "distinct (map fst (timers ?s))"
      using timers_okD_distinct [OF ok]
      by (auto simp: arm_eq dest: timers_okD_bound [OF ok])
  next
    fix g' assume "callbacks (groups ?s g') \<noteq> []" "None \<noteq> Some g'"
    with timers_okD_armed [OF ok, of g']
    show "\<exists>t. timeout (groups ?s g') = Some t \<and> (t, Tick g') \<in> set (timers ?s)"
      by (cases "g' = g") (auto simp: arm_eq)
  next
    fix t k assume "(t, k) \<in> set (timers ?s)"
    then show "t < next_timer ?s"
      by (auto simp: arm_eq dest: timers_okD_bound [OF ok])
  next
    fix g' t assume "timeout (groups ?s g') = Some t"
    then show "t < next_timer ?s"
      by (auto simp: arm_eq split: if_splits dest: timers_okD_timeout [OF ok])
  next
    fix t g' assume "(t, Tick g') \<in> set (timers ?s)"
    then show "g' < next_group ?s \<and> timeout (groups ?s g') = Some t \<and> None \<noteq> Some g'"
      using timers_okD_tick [OF ok, of t g'] cur by (auto simp: arm_eq)
  qed simp
  moreover have "registry_ok ?s = registry_ok s"
    by (intro registry_ok_cong) (simp_all add: arm_eq)
  moreover have "closures_ok ?s = closures_ok s"
    by (intro closures_ok_cong) (simp_all add: arm_eq)
  ultimately show ?thesis using assms by (simp add: wf_at_def)
qed

lemma wf_at_unqueue:
  assumes wf: "wf_at None s" and t: "(t, k) \<in> set (timers s)"
  shows "wf_at (case k of Tick g \<Rightarrow> Some g | Rethrow e \<Rightarrow> None)
           (s\<lparr>timers := filter (\<lambda>p. fst p \<noteq> t) (timers s)\<rparr>)"
proof -
  let ?s = "s\<lparr>timers := filter (\<lambda>p. fst p \<noteq> t) (timers s)\<rparr>"
  let ?cur = "case k of Tick g \<Rightarrow> Some g | Rethrow e \<Rightarrow> None"
  from wf have ok: "timers_ok None s" by (simp add: wf_at_def)
  note uniq = distinct_fst_unique [OF timers_okD_distinct [OF ok]]
  have "timers_ok ?cur ?s"
  proof (rule timers_okI)
    show "distinct (map fst (timers ?s))"
      using timers_okD_distinct [OF ok] by (simp add: distinct_map_filter)
  next
    fix g' assume a: "callbacks (groups ?s g') \<noteq> []" "?cur \<noteq> Some g'"
    then obtain t' where t': "timeout (groups s g') = Some t'" "(t', Tick g') \<in> set (timers s)"
      using timers_okD_armed [OF ok, of g'] by auto
    have "t' \<noteq> t"
    proof
      assume "t' = t"
      with t t'(2) uniq [of t k "Tick g'"] have "k = Tick g'" by simp
      with a(2) show False by simp
    qed
    with t' show "\<exists>t. timeout (groups ?s g') = Some t \<and> (t, Tick g') \<in> set (timers ?s)"
      by auto
  next
    fix t' k' assume "(t', k') \<in> set (timers ?s)"
    then show "t' < next_timer ?s"
      by (auto dest: timers_okD_bound [OF ok])
  next
    fix g' t' assume "timeout (groups ?s g') = Some t'"
    then show "t' < next_timer ?s"
      by (auto dest: timers_okD_timeout [OF ok])
  next
    fix t' g' assume a: "(t', Tick g') \<in> set (timers ?s)"
    then have in': "(t', Tick g') \<in> set (timers s)" "t' \<noteq> t" by auto
    have "?cur \<noteq> Some g'"
    proof
      assume "?cur = Some g'"
      then have k: "k = Tick g'" by (cases k) auto
      with t timers_okD_tick [OF ok, of t g'] timers_okD_tick [OF ok in'(1)] in'(2)
      show False by auto
    qed
    with timers_okD_tick [OF ok in'(1)]
    show "g' < next_group ?s \<and> timeout (groups ?s g') = Some t' \<and> ?cur \<noteq> Some g'"
      by simp
  next
    fix g' assume "?cur = Some g'"
    then have k: "k = Tick g'" by (cases k) auto
    with t timers_okD_tick [OF ok, of t g']
    show "g' < next_group ?s \<and> (\<forall>t k. timeout (groups ?s g') = Some t \<longrightarrow> (t, k) \<notin> set (timers ?s))"
      by auto
  qed
  moreover have "registry_ok ?s = registry_ok s"
    by (intro registry_ok_cong) simp_all
  moreover have "closures_ok ?s = closures_ok s"
    by (intro closures_ok_cong) simp_all
  ultimately show ?thesis using wf by (simp add: wf_at_def)
qed

lemma wf_at_fire:
  assumes "wf_at None s"
  shows "wf_at None (fire t s)"
proof (cases "map_of (timers s) t")
  case None
  with assms show ?thesis by (simp add: fire_def)
next
  case (Some k)
  then have t: "(t, k) \<in> set (timers s)" by (rule map_of_SomeD)
  let ?s = "s\<lparr>timers := filter (\<lambda>p. fst p \<noteq> t) (timers s)\<rparr>"
  show ?thesis
  proof (cases k)
    case (Tick g)
    with wf_at_unqueue [OF assms t] have "wf_at (Some g) ?s" by simp
    then have "wf_at None (arm g (for_of g 0 ?s))"
      by (intro wf_at_arm wf_at_for_of)
    with Some Tick show ?thesis by (simp add: fire_def invokeCallbacks_def)
  next
    case (Rethrow e)
    with wf_at_unqueue [OF assms t] have "wf_at None ?s" by simp
    with Some Rethrow show ?thesis by (simp add: fire_def)
  qed
qed

lemma wf_at_effect:
  assumes "wf_at cur s"
  shows "wf_at cur (effect h s)"
proof -
  have "registry_ok (effect h s) = registry_ok s"
    by (intro registry_ok_cong) (simp_all add: effect_def)
  moreover have "timers_ok cur (effect h s) = timers_ok cur s"
    by (intro timers_ok_cong) (simp_all add: effect_def)
  moreover have "closures_ok (effect h s)"
  proof (rule closures_ok_shrink [of s])
    show "closures_ok s" using assms by (simp add: wf_at_def)
  qed (use assms in \<open>simp_all add: wf_at_def effect_def closures_okD1\<close>)
  ultimately show ?thesis using assms by (simp add: wf_at_def)
qed

lemma wf_at_cleanup:
  assumes "wf_at cur s"
  shows "wf_at cur (cleanup h s)"
proof -
  let ?s = "doCancel h s"
  from assms have wf: "wf_at cur ?s" by (rule wf_at_doCancel)
  have "registry_ok (cleanup h s) = registry_ok ?s"
    by (intro registry_ok_cong) (simp_all add: cleanup_def Let_def)
  moreover have "timers_ok cur (cleanup h s) = timers_ok cur ?s"
    by (intro timers_ok_cong) (simp_all add: cleanup_def Let_def)
  moreover have "closures_ok (cleanup h s)"
  proof (rule closures_ok_shrink [of ?s])
    show "closures_ok ?s" using wf by (simp add: wf_at_def)
  qed (use wf in \<open>simp_all add: wf_at_def cleanup_def Let_def closures_okD1\<close>)
  ultimately show ?thesis using wf by (simp add: wf_at_def)
qed

text \<open>
  The states the module can be in: what the host does to it is to run an effect or its
  cleanup, to call \<open>schedule\<close> or \<open>cancel\<close> on a handle, and to let a pending timer fire.
\<close>

inductive reachable :: "state \<Rightarrow> bool" where
  reach_init: "reachable init"
| reach_effect: "reachable s \<Longrightarrow> reachable (effect h s)"
| reach_cleanup: "reachable s \<Longrightarrow> reachable (cleanup h s)"
| reach_schedule: "reachable s \<Longrightarrow> reachable (schedule h cb ms args s)"
| reach_cancel: "reachable s \<Longrightarrow> reachable (cancel h s)"
| reach_fire: "reachable s \<Longrightarrow> reachable (fire t s)"

lemma reachable_wf: "reachable s \<Longrightarrow> wf_at None s"
  by (induction rule: reachable.induct)
     (simp_all add: wf_at_init wf_at_effect wf_at_cleanup wf_at_doSchedule wf_at_doCancel
        wf_at_fire schedule_def cancel_def)

section \<open>Ticks of callbacks that make no call into a handle\<close>

text \<open>
  A callback is quiet when its run makes no call into a handle: it may only throw. The
  event a call of a closure leaves in the trace is \<open>ev\<close>.
\<close>

fun is_call :: "action \<Rightarrow> bool" where
  "is_call (Schedule h cb ms args) = True"
| "is_call (Cancel h) = True"
| "is_call (Throw e) = False"

definition quiet :: "ucb \<Rightarrow> bool" where
  "quiet f = list_all (\<lambda>a. \<not> is_call a) (fbody f)"

fun thrown :: "action list \<Rightarrow> nat option" where
  "thrown [] = None"
| "thrown (Throw e # as) = Some e"
| "thrown (a # as) = thrown as"

definition ev :: "closure \<Rightarrow> event" where
  "ev c = Invoked (cid c) (fname (cfn c)) (cargs c)"

definition rethrows :: "closure list \<Rightarrow> task list" where
  "rethrows cs =
     concat (map (\<lambda>c. case thrown (fbody (cfn c)) of None \<Rightarrow> [] | Some e \<Rightarrow> [Rethrow e]) cs)"

lemma run_actions_thrown: "snd (run_actions as s) = thrown as"
  by (induction as s rule: run_actions.induct) simp_all

lemma run_actions_quiet: "list_all (\<lambda>a. \<not> is_call a) as \<Longrightarrow> fst (run_actions as s) = s"
  by (induction as s rule: run_actions.induct) simp_all

lemma try_call_quiet:
  assumes "quiet (cfn c)"
  shows "try_call c s =
     (case thrown (fbody (cfn c)) of
        None \<Rightarrow> s\<lparr>trace := trace s @ [ev c]\<rparr>
      | Some e \<Rightarrow> snd (setTimeout (Rethrow e) (s\<lparr>trace := trace s @ [ev c]\<rparr>)))"
proof (cases "cfn c")
  case (Fn f body)
  let ?s = "s\<lparr>trace := trace s @ [Invoked (cid c) f (cargs c)]\<rparr>"
  from assms Fn have "fst (run_actions body ?s) = ?s"
    by (simp add: quiet_def run_actions_quiet)
  moreover have "snd (run_actions body ?s) = thrown body" by (rule run_actions_thrown)
  ultimately have "run_actions body ?s = (?s, thrown body)" by (metis prod.collapse)
  with Fn show ?thesis by (simp add: try_call_def call_closure_def ev_def split: option.splits)
qed

lemma for_of_step:
  "i < length (callbacks (groups s g)) \<Longrightarrow>
   for_of g i s = for_of g (Suc i) (try_call (callbacks (groups s g) ! i) s)"
  by (subst for_of.simps) simp

lemma for_of_done: "\<not> i < length (callbacks (groups s g)) \<Longrightarrow> for_of g i s = s"
  by (subst for_of.simps) simp

lemma for_of_quiet:
  assumes "\<forall>c \<in> set (drop i (callbacks (groups s g))). quiet (cfn c)"
  shows "groups (for_of g i s) = groups s \<and> schedulers (for_of g i s) = schedulers s \<and>
         managers (for_of g i s) = managers s \<and> next_group (for_of g i s) = next_group s \<and>
         next_cid (for_of g i s) = next_cid s \<and>
         trace (for_of g i s) = trace s @ map ev (drop i (callbacks (groups s g))) \<and>
         map snd (timers (for_of g i s)) =
           map snd (timers s) @ rethrows (drop i (callbacks (groups s g)))"
  using assms
proof (induction g i s rule: for_of.induct)
  case (1 g i s)
  let ?cbs = "callbacks (groups s g)"
  show ?case
  proof (cases "i < length ?cbs")
    case False
    then show ?thesis by (simp add: for_of_done rethrows_def)
  next
    case True
    let ?c = "?cbs ! i"
    let ?s = "try_call ?c s"
    from True have dr: "drop i ?cbs = ?c # drop (Suc i) ?cbs" by (simp add: Cons_nth_drop_Suc)
    with "1.prems" have q: "quiet (cfn ?c)" by simp
    have same: "groups ?s = groups s" "schedulers ?s = schedulers s" "managers ?s = managers s"
      "next_group ?s = next_group s" "next_cid ?s = next_cid s"
      "trace ?s = trace s @ [ev ?c]"
      "map snd (timers ?s) = map snd (timers s) @ rethrows [?c]"
      by (simp_all add: try_call_quiet [OF q] setTimeout_def rethrows_def
          split: option.splits)
    have "\<forall>c \<in> set (drop (Suc i) (callbacks (groups ?s g))). quiet (cfn c)"
      using "1.prems" dr by (simp add: same)
    from "1.IH" [OF True this] show ?thesis
      by (simp add: for_of_step [OF True] same dr rethrows_def)
  qed
qed

section \<open>What cancelling and scheduling change\<close>

lemma run_abort_callbacks:
  "callbacks (groups (run_abort (g, cb) s) g') =
     (if g' = g
      then (case indexOf (callbacks (groups s g)) cb of
              None \<Rightarrow> callbacks (groups s g)
            | Some i \<Rightarrow> splice1 i (callbacks (groups s g)))
      else callbacks (groups s g'))"
  by (simp add: run_abort_def set_callbacks_def clearTimeout_def Let_def split: option.splits)

lemma run_abort_g_ms [simp]: "g_ms (groups (run_abort a s) g') = g_ms (groups s g')"
  by (cases a) (simp add: run_abort_def set_callbacks_def clearTimeout_def Let_def split: option.splits)

lemma run_abort_subset:
  "set (callbacks (groups (run_abort (g, cb) s) g')) \<subseteq> set (callbacks (groups s g'))"
  by (auto simp: run_abort_callbacks split: option.splits dest: set_splice1 [THEN subsetD])


lemma run_abort_removes:
  "distinct (map cid (callbacks (groups s g))) \<Longrightarrow>
   cid cb \<notin> cid ` set (callbacks (groups (run_abort (g, cb) s) g))"
  using distinct_splice1 [of "callbacks (groups s g)" cb]
  by (auto simp: run_abort_callbacks indexOf_None_iff split: option.splits)

lemma doCancel_frame [simp]:
  "next_cid (doCancel h s) = next_cid s"
  "next_group (doCancel h s) = next_group s"
  "next_timer (doCancel h s) = next_timer s"
  "trace (doCancel h s) = trace s"
  "g_ms (groups (doCancel h s) g) = g_ms (groups s g)"
  by (simp_all add: doCancel_def split: option.splits)


lemma doCancel_subset:
  "set (callbacks (groups (doCancel h s) g)) \<subseteq> set (callbacks (groups s g))"
  using run_abort_subset by (auto simp: doCancel_def split: option.splits)


lemma doCancel_removes:
  assumes wf: "wf_at cur s" and l: "live (managers s h)"
    and a: "abort (managers s h) = Some (g, c)"
  shows "cid c \<notin> cid ` set (callbacks (groups (doCancel h s) g'))"
proof
  assume "cid c \<in> cid ` set (callbacks (groups (doCancel h s) g'))"
  then obtain x where x: "x \<in> set (callbacks (groups (doCancel h s) g'))" "cid x = cid c"
    by auto
  from wf have ok: "closures_ok s" by (simp add: wf_at_def)
  from x(1) doCancel_subset have x': "x \<in> set (callbacks (groups s g'))" by blast
  from closures_okD4 [OF ok a x' x(2)] have g': "g' = g" .
  have "cid c \<notin> cid ` set (callbacks (groups (run_abort (g, c) s) g))"
    by (rule run_abort_removes) (rule closures_okD1 [OF ok])
  moreover have "callbacks (groups (doCancel h s) g') = callbacks (groups (run_abort (g, c) s) g)"
    using l a g' by (simp add: doCancel_def)
  moreover note x
  ultimately show False by (simp add: image_iff) metis
qed


section \<open>Cancelling\<close>

text \<open>
  C8. \<open>cancel\<close> called twice in a row leaves the same state as calling it once, and when
  the handle holds no registration (or its callbacks are still \<open>noop\<close>) the call changes
  nothing. The function is total: no path of lines 41 to 46 and 99 to 106 throws.
\<close>

theorem cancel_idempotent:
  "cancel h (cancel h s) = cancel h s \<and>
   (abort (managers s h) = None \<longrightarrow> cancel h s = s) \<and>
   (\<not> live (managers s h) \<longrightarrow> cancel h s = s)"
  by (simp add: cancel_def doCancel_idem doCancel_no_abort doCancel_not_live)

theorem cancel_idempotent_witness:
  "abort (managers (effect 1 init) 1) = None \<and> cancel 1 (effect 1 init) = effect 1 init \<and>
   \<not> live (managers init 1) \<and> cancel 1 init = init"
  using cancel_idempotent [of 1 "effect 1 init"] cancel_idempotent [of 1 init]
  by (simp add: effect_def init_def)

section \<open>The delay key\<close>






section \<open>The same callback scheduled through two handles\<close>


lemma trace_arm [simp]: "trace (arm g s) = trace s"
  by (simp add: arm_eq)

lemma invokeCallbacks_quiet:
  assumes "\<forall>c \<in> set (callbacks (groups s g)). quiet (cfn c)"
  shows "trace (invokeCallbacks g s) = trace s @ map ev (callbacks (groups s g))"
  using for_of_quiet [of 0 s g] assms by (simp add: invokeCallbacks_def)




section \<open>A callback that throws\<close>

lemma fire_tick:
  "map_of (timers s) t = Some (Tick g) \<Longrightarrow>
   fire t s = invokeCallbacks g (s\<lparr>timers := filter (\<lambda>p. fst p \<noteq> t) (timers s)\<rparr>)"
  by (simp add: fire_def)

lemma invokeCallbacks_rearms:
  "\<exists>t. timeout (groups (invokeCallbacks g s) g) = Some t \<and>
       (t, Tick g) \<in> set (timers (invokeCallbacks g s))"
  by (simp add: invokeCallbacks_def arm_eq)

lemma invokeCallbacks_quiet_timers:
  assumes "\<forall>c \<in> set (callbacks (groups s g)). quiet (cfn c)"
  shows "map snd (timers (invokeCallbacks g s)) =
           map snd (timers s) @ rethrows (callbacks (groups s g)) @ [Tick g]"
  using for_of_quiet [of 0 s g] assms by (simp add: invokeCallbacks_def arm_eq)

text \<open>
  C6. When the call of a callback throws \<open>e\<close>, the loop goes on with the next index, on
  the state the callback left, with one more pending task that rethrows \<open>e\<close>. Every tick
  ends by arming the timer of its scheduler again. In a tick of callbacks that make no
  call into a handle, throwing or not, every callback of the array is called, in order,
  and the pending tasks afterwards are the earlier ones, one rethrow for each callback
  that threw, and the timer of the next tick. The rethrow task, when the host runs it,
  surfaces \<open>e\<close> and touches neither the registry nor any scheduler.
\<close>

theorem throw_is_deferred:
  "(i < length (callbacks (groups s g)) \<and>
    snd (call_closure (callbacks (groups s g) ! i) s) = Some e \<longrightarrow>
      for_of g i s =
        for_of g (Suc i)
          (snd (setTimeout (Rethrow e) (fst (call_closure (callbacks (groups s g) ! i) s))))) \<and>
   timers (snd (setTimeout (Rethrow e) s)) = timers s @ [(next_timer s, Rethrow e)] \<and>
   groups (snd (setTimeout (Rethrow e) s)) = groups s \<and>
   schedulers (snd (setTimeout (Rethrow e) s)) = schedulers s \<and>
   trace (snd (setTimeout (Rethrow e) s)) = trace s \<and>
   (map_of (timers s) t = Some (Tick g) \<longrightarrow>
      (\<exists>t'. timeout (groups (fire t s) g) = Some t' \<and> (t', Tick g) \<in> set (timers (fire t s)))) \<and>
   (map_of (timers s) t = Some (Tick g) \<and>
    (\<forall>c \<in> set (callbacks (groups s g)). quiet (cfn c)) \<longrightarrow>
      trace (fire t s) = trace s @ map ev (callbacks (groups s g)) \<and>
      map snd (timers (fire t s)) =
        map snd (filter (\<lambda>p. fst p \<noteq> t) (timers s)) @ rethrows (callbacks (groups s g)) @ [Tick g]) \<and>
   (map_of (timers s) t = Some (Rethrow e) \<longrightarrow>
      trace (fire t s) = trace s @ [Uncaught e] \<and>
      groups (fire t s) = groups s \<and> schedulers (fire t s) = schedulers s \<and>
      managers (fire t s) = managers s)"
proof -
  have 1: "i < length (callbacks (groups s g)) \<and>
    snd (call_closure (callbacks (groups s g) ! i) s) = Some e \<longrightarrow>
      for_of g i s =
        for_of g (Suc i)
          (snd (setTimeout (Rethrow e) (fst (call_closure (callbacks (groups s g) ! i) s))))"
    by (cases "call_closure (callbacks (groups s g) ! i) s") (simp add: for_of_step try_call_def)
  have 2: "map_of (timers s) t = Some (Tick g) \<longrightarrow>
      (\<exists>t'. timeout (groups (fire t s) g) = Some t' \<and> (t', Tick g) \<in> set (timers (fire t s)))"
    using invokeCallbacks_rearms by (simp add: fire_tick)
  have 3: "map_of (timers s) t = Some (Tick g) \<and>
    (\<forall>c \<in> set (callbacks (groups s g)). quiet (cfn c)) \<longrightarrow>
      trace (fire t s) = trace s @ map ev (callbacks (groups s g)) \<and>
      map snd (timers (fire t s)) =
        map snd (filter (\<lambda>p. fst p \<noteq> t) (timers s)) @ rethrows (callbacks (groups s g)) @ [Tick g]"
    using
      invokeCallbacks_quiet [of "s\<lparr>timers := filter (\<lambda>p. fst p \<noteq> t) (timers s)\<rparr>" g]
      invokeCallbacks_quiet_timers [of "s\<lparr>timers := filter (\<lambda>p. fst p \<noteq> t) (timers s)\<rparr>" g]
    by (simp add: fire_tick)
  have 4: "map_of (timers s) t = Some (Rethrow e) \<longrightarrow>
      trace (fire t s) = trace s @ [Uncaught e] \<and>
      groups (fire t s) = groups s \<and> schedulers (fire t s) = schedulers s \<and>
      managers (fire t s) = managers s"
    by (simp add: fire_def)
  have 5: "timers (snd (setTimeout (Rethrow e) s)) = timers s @ [(next_timer s, Rethrow e)]"
    "groups (snd (setTimeout (Rethrow e) s)) = groups s"
    "schedulers (snd (setTimeout (Rethrow e) s)) = schedulers s"
    "trace (snd (setTimeout (Rethrow e) s)) = trace s"
    by (simp_all add: setTimeout_def)
  from 1 2 3 4 5 show ?thesis by (intro conjI)
qed

definition throwing_first :: state where
  "throwing_first =
     schedule 2 (Fn 20 []) (Num 100) []
       (schedule 1 (Fn 10 [Throw 99]) (Num 100) [] (effect 2 (effect 1 init)))"

theorem throw_is_deferred_witness:
  "map_of (timers throwing_first) 0 = Some (Tick 0) \<and>
   map ev (callbacks (groups throwing_first 0)) = [Invoked 0 10 [], Invoked 1 20 []] \<and>
   snd (call_closure (callbacks (groups throwing_first 0) ! 0) throwing_first) = Some 99 \<and>
   trace (for_of 0 0 throwing_first) = [Invoked 0 10 [], Invoked 1 20 []] \<and>
   trace (fire 0 throwing_first) = [Invoked 0 10 [], Invoked 1 20 []] \<and>
   map snd (timers (fire 0 throwing_first)) = [Rethrow 99, Tick 0] \<and>
   map_of (timers (fire 0 throwing_first)) 1 = Some (Rethrow 99) \<and>
   trace (fire 1 (fire 0 throwing_first)) = [Invoked 0 10 [], Invoked 1 20 [], Uncaught 99]"
proof -
  let ?c = "callbacks (groups throwing_first 0) ! 0"
  have e: "map_of (timers throwing_first) 0 = Some (Tick 0)"
    "map ev (callbacks (groups throwing_first 0)) = [Invoked 0 10 [], Invoked 1 20 []]"
    "snd (call_closure ?c throwing_first) = Some 99"
    "list_all (\<lambda>c. quiet (cfn c)) (callbacks (groups throwing_first 0))"
    "trace throwing_first = []"
    "map snd (filter (\<lambda>p. fst p \<noteq> 0) (timers throwing_first)) = []"
    "rethrows (callbacks (groups throwing_first 0)) = [Rethrow 99]"
    "length (callbacks (groups throwing_first 0)) = 2"
    "map_of (timers (fire 0 throwing_first)) 1 = Some (Rethrow 99)"
    "trace (for_of 0 (Suc 0) (snd (setTimeout (Rethrow 99) (fst (call_closure ?c throwing_first)))))
       = [Invoked 0 10 [], Invoked 1 20 []]"
    unfolding throwing_first_def by code_simp+
  note t = throw_is_deferred [of 0 throwing_first 0 99 0]
  from t e have a: "trace (for_of 0 0 throwing_first) = [Invoked 0 10 [], Invoked 1 20 []]"
    by simp
  from t e have b: "trace (fire 0 throwing_first) = [Invoked 0 10 [], Invoked 1 20 []]"
    "map snd (timers (fire 0 throwing_first)) = [Rethrow 99, Tick 0]"
    by (simp_all add: list_all_iff)
  from throw_is_deferred [of 0 "fire 0 throwing_first" 0 99 1] e(9) b(1)
  have c: "trace (fire 1 (fire 0 throwing_first)) = [Invoked 0 10 [], Invoked 1 20 [], Uncaught 99]"
    by simp
  from a b c e show ?thesis by simp
qed

section \<open>A callback that cancels while a tick is running\<close>

text \<open>Two handles on one delay; the first callback cancels its own handle when it runs.\<close>

definition self_cancel_first :: state where
  "self_cancel_first =
     schedule 2 (Fn 20 []) (Num 100) []
       (schedule 1 (Fn 10 [Cancel 1]) (Num 100) [] (effect 2 (effect 1 init)))"

text \<open>
  C4, at the failing input. The array holds the arrow functions 0 and 1 when the timer
  fires. The call of 0 cancels handle 1, which splices 0 out of the array the loop is
  walking: 1 moves to index 0, the loop goes on at index 1 and ends. The tick has called
  0 only, although 1 was in the array before, during and after the tick; the next tick
  calls it.
\<close>

theorem tick_skips_callback_after_removal:
  "map cid (callbacks (groups self_cancel_first 0)) = [0, 1] \<and>
   timers self_cancel_first = [(0, Tick 0)] \<and>
   trace (fire 0 self_cancel_first) = [Invoked 0 10 []] \<and>
   map cid (callbacks (groups (fire 0 self_cancel_first) 0)) = [1] \<and>
   trace (fire 1 (fire 0 self_cancel_first)) = [Invoked 0 10 [], Invoked 1 20 []]"
  unfolding self_cancel_first_def by code_simp

text \<open>Three handles on one delay; again the first callback cancels its own handle.\<close>

definition three_on_one_delay :: state where
  "three_on_one_delay =
     schedule 3 (Fn 30 []) (Num 100) []
       (schedule 2 (Fn 20 []) (Num 100) []
          (schedule 1 (Fn 10 [Cancel 1]) (Num 100) [] (effect 3 (effect 2 (effect 1 init)))))"

text \<open>
  C2, at the failing input. The callbacks 20 and 30 are registered, in this order, and
  neither is ever removed. The tick calls 10 and then 30: it does not call 20.
\<close>

theorem tick_order_misses_registered_callback:
  "map ev (callbacks (groups three_on_one_delay 0)) =
     [Invoked 0 10 [], Invoked 1 20 [], Invoked 2 30 []] \<and>
   trace (fire 0 three_on_one_delay) = [Invoked 0 10 [], Invoked 2 30 []] \<and>
   map ev (callbacks (groups (fire 0 three_on_one_delay) 0)) = [Invoked 1 20 [], Invoked 2 30 []]"
  unfolding three_on_one_delay_def by code_simp

section \<open>The last callback removed while a tick is running\<close>

text \<open>
  Outside a tick, the removal that empties the array of a scheduler does take the
  scheduler out of the registry and leaves no pending timer of it.
\<close>

lemma last_removal_outside_tick:
  assumes wf: "wf_at None s" and one: "callbacks (groups s g) = [c]"
  shows "callbacks (groups (run_abort (g, c) s) g) = [] \<and>
         schedulers (run_abort (g, c) s) (g_ms (groups s g)) = None \<and>
         (\<forall>t. (t, Tick g) \<notin> set (timers (run_abort (g, c) s)))"
proof -
  from wf have ok: "timers_ok None s" by (simp add: wf_at_def)
  from one have ne: "callbacks (groups s g) \<noteq> []" by simp
  from timers_okD_armed [OF ok ne] obtain t0
    where t0: "timeout (groups s g) = Some t0" by auto
  have eq: "run_abort (g, c) s =
      (set_callbacks g [] s)\<lparr>schedulers := (schedulers s)(g_ms (groups s g) := None),
                             timers := filter (\<lambda>p. fst p \<noteq> t0) (timers s)\<rparr>"
    using one t0
    by (simp add: run_abort_def splice1_def set_callbacks_def clearTimeout_def Let_def)
  have "t = t0" if "(t, Tick g) \<in> set (timers s)" for t
    using timers_okD_tick [OF ok that] t0 by simp
  then have "(t, Tick g) \<notin> set (timers (run_abort (g, c) s))" for t
    by (auto simp: eq)
  then show ?thesis by (simp add: eq set_callbacks_def)
qed

text \<open>A scheduler with an empty array, once its timer fires, arms it again: it ticks for ever.\<close>

lemma empty_scheduler_keeps_ticking:
  assumes "callbacks (groups s g) = []" and "map_of (timers s) t = Some (Tick g)"
  shows "callbacks (groups (fire t s) g) = [] \<and> schedulers (fire t s) = schedulers s \<and>
         trace (fire t s) = trace s \<and>
         (next_timer s, Tick g) \<in> set (timers (fire t s))"
  using assms by (simp add: fire_tick invokeCallbacks_def for_of_done arm_eq)

definition lone_self_cancel :: state where
  "lone_self_cancel = schedule 1 (Fn 10 [Cancel 1]) (Num 100) [] (effect 1 init)"

text \<open>
  C3, at the failing input. The only callback of the delay cancels its own handle when it
  runs. The removal empties the array and deletes the registry entry, and
  \<open>clearTimeout\<close> is given the timer that has just fired; then \<open>invokeCallbacks\<close> arms a
  new timer. After the tick the scheduler has no callback and is in no registry, and its
  timer is pending; it fires and is armed again, tick after tick, calling nothing.
\<close>

theorem timer_survives_removal_inside_tick:
  "schedulers lone_self_cancel 100 = Some 0 \<and>
   timers lone_self_cancel = [(0, Tick 0)] \<and>
   callbacks (groups (fire 0 lone_self_cancel) 0) = [] \<and>
   schedulers (fire 0 lone_self_cancel) 100 = None \<and>
   timers (fire 0 lone_self_cancel) = [(1, Tick 0)] \<and>
   timers (fire 1 (fire 0 lone_self_cancel)) = [(2, Tick 0)] \<and>
   timers (fire 2 (fire 1 (fire 0 lone_self_cancel))) = [(3, Tick 0)] \<and>
   trace (fire 2 (fire 1 (fire 0 lone_self_cancel))) = [Invoked 0 10 []]"
  unfolding lone_self_cancel_def by code_simp

section \<open>One scheduler and one timer for each delay\<close>

lemma filter_unique_key:
  assumes "distinct (map fst ts)" and "(t, k) \<in> set ts"
    and "\<And>t'. (t', k) \<in> set ts \<Longrightarrow> t' = t"
  shows "filter (\<lambda>p. snd p = k) ts = [(t, k)]"
  using assms
proof (induction ts)
  case Nil
  then show ?case by simp
next
  case (Cons p ts)
  show ?case
  proof (cases "p = (t, k)")
    case True
    have "snd q \<noteq> k" if "q \<in> set ts" for q
    proof
      assume "snd q = k"
      with that have "(fst q, k) \<in> set (p # ts)" by (cases q) auto
      with Cons.prems(3) have "fst q = t" by blast
      with that True Cons.prems(1) show False by (auto simp: image_iff)
    qed
    then have "filter (\<lambda>p. snd p = k) ts = []" by (simp add: filter_empty_conv)
    with True show ?thesis by simp
  next
    case False
    with Cons.prems(3) [of "fst p"] have "snd p \<noteq> k" by (cases p) auto
    moreover from False Cons.prems have "filter (\<lambda>p. snd p = k) ts = [(t, k)]"
      by (intro Cons.IH) auto
    ultimately show ?thesis by simp
  qed
qed

lemma one_timer_per_scheduler:
  assumes wf: "wf_at None s" and ne: "callbacks (groups s g) \<noteq> []"
  shows "\<exists>t. timeout (groups s g) = Some t \<and>
             filter (\<lambda>p. snd p = Tick g) (timers s) = [(t, Tick g)]"
proof -
  from wf have ok: "timers_ok None s" by (simp add: wf_at_def)
  from timers_okD_armed [OF ok ne] obtain t
    where t: "timeout (groups s g) = Some t" "(t, Tick g) \<in> set (timers s)" by auto
  have "t' = t" if "(t', Tick g) \<in> set (timers s)" for t'
    using timers_okD_tick [OF ok that] t(1) by simp
  from filter_unique_key [OF timers_okD_distinct [OF ok] t(2) this] t(1)
  show ?thesis by simp
qed

text \<open>
  What does hold. \<open>getOrCreateScheduler d\<close> returns the scheduler registered under \<open>d\<close>,
  or allocates one, stores it and returns it, and a second call returns the same
  instance. In every reachable state the schedulers that hold callbacks have different
  delays, each is the registry's entry for its delay, and each has exactly one pending
  timer of its own.
\<close>

lemma getOrCreateScheduler_found:
  "schedulers s d = Some g \<Longrightarrow> getOrCreateScheduler d s = (g, s)"
  by (simp add: getOrCreateScheduler_def)

lemma getOrCreateScheduler_created:
  "schedulers s d = None \<Longrightarrow>
   fst (getOrCreateScheduler d s) = next_group s \<and>
   schedulers (snd (getOrCreateScheduler d s)) = (schedulers s)(d \<mapsto> next_group s) \<and>
   groups (snd (getOrCreateScheduler d s)) = (groups s)(next_group s := blank d)"
  by (simp add: getOrCreateScheduler_def Let_def)

lemma getOrCreateScheduler_again:
  "getOrCreateScheduler d (snd (getOrCreateScheduler d s)) = getOrCreateScheduler d s"
  by (cases "schedulers s d") (simp_all add: getOrCreateScheduler_def Let_def)

lemma one_scheduler_per_delay:
  assumes "reachable s"
    and "callbacks (groups s g1) \<noteq> []" and "callbacks (groups s g2) \<noteq> []"
    and eq: "g_ms (groups s g1) = g_ms (groups s g2)"
  shows "g1 = g2"
proof -
  from assms(1) have reg: "registry_ok s" using reachable_wf by (simp add: wf_at_def)
  from registry_okD2 [OF reg assms(2)] have "schedulers s (g_ms (groups s g1)) = Some g1" ..
  then have "schedulers s (g_ms (groups s g2)) = Some g1" unfolding eq .
  moreover from registry_okD2 [OF reg assms(3)] have "schedulers s (g_ms (groups s g2)) = Some g2" ..
  ultimately show ?thesis by simp
qed

text \<open>The only callback of delay 100 schedules, when it runs, another one on its own handle with the same delay.\<close>

definition reschedules_itself :: state where
  "reschedules_itself =
     schedule 1 (Fn 10 [Schedule 1 (Fn 11 []) (Num 100) []]) (Num 100) [] (effect 1 init)"

text \<open>
  C1, at the failing input. Before the tick one timer is pending for delay 100. In the
  tick, \<open>doSchedule\<close> first cancels the registration of the handle: the array of scheduler
  0 becomes empty, the registry entry of 100 is deleted and \<open>clearTimeout\<close> is given the
  timer that has just fired. \<open>getOrCreateScheduler(100)\<close> then finds no entry and creates
  scheduler 1, which arms its timer; and when the loop ends line 91 arms the timer of
  scheduler 0 again. From then on two timers of delay 100 are pending and both fire in
  every interval: the one of scheduler 1 calls the callback, the one of scheduler 0
  calls nothing.
\<close>

theorem two_timers_for_one_delay:
  "timers reschedules_itself = [(0, Tick 0)] \<and>
   schedulers reschedules_itself 100 = Some 0 \<and>
   timers (fire 0 reschedules_itself) = [(1, Tick 1), (2, Tick 0)] \<and>
   g_ms (groups (fire 0 reschedules_itself) 0) = 100 \<and>
   g_ms (groups (fire 0 reschedules_itself) 1) = 100 \<and>
   schedulers (fire 0 reschedules_itself) 100 = Some 1 \<and>
   callbacks (groups (fire 0 reschedules_itself) 0) = [] \<and>
   map ev (callbacks (groups (fire 0 reschedules_itself) 1)) = [Invoked 1 11 []] \<and>
   timers (fire 2 (fire 1 (fire 0 reschedules_itself))) = [(3, Tick 1), (4, Tick 0)] \<and>
   trace (fire 2 (fire 1 (fire 0 reschedules_itself))) = [Invoked 0 10 [], Invoked 1 11 []]"
  unfolding reschedules_itself_def by code_simp

section \<open>Before the effect and after its cleanup\<close>

text \<open>A call made on a handle from outside: \<open>schedule(cb, ms, ...args)\<close> or \<open>cancel()\<close>.\<close>

datatype call = CallSchedule ucb jsnum "nat list" | CallCancel

fun handle_call :: "nat \<Rightarrow> call \<Rightarrow> state \<Rightarrow> state" where
  "handle_call h (CallSchedule cb ms args) s = schedule h cb ms args s"
| "handle_call h CallCancel s = cancel h s"

fun handle_calls :: "nat \<Rightarrow> call list \<Rightarrow> state \<Rightarrow> state" where
  "handle_calls h [] s = s"
| "handle_calls h (c # cs) s = handle_calls h cs (handle_call h c s)"

lemma handle_calls_not_live: "\<not> live (managers s h) \<Longrightarrow> handle_calls h cs s = s"
proof (induction cs)
  case Nil
  then show ?case by simp
next
  case (Cons c cs)
  then show ?case
    by (cases c) (simp_all add: schedule_def cancel_def doSchedule_not_live doCancel_not_live)
qed

lemma cleanup_not_live: "\<not> live (managers (cleanup h s) h)"
  by (simp add: cleanup_def Let_def)

lemma cleanup_callbacks:
  "callbacks (groups (cleanup h s) g) = callbacks (groups (doCancel h s) g)"
  by (simp add: cleanup_def Let_def)

text \<open>One run of the effect, its cleanup, and a second run of the effect, on handle 1.\<close>

definition remounted :: state where
  "remounted = effect 1 (cleanup 1 (effect 1 init))"

text \<open>
  C7, as stated, fails. The cleanup of the effect has run on handle 1, and a call of
  \<open>schedule\<close> made on the handle afterwards is not a no-op: the effect has run once more
  in between (line 33 assigns \<open>doSchedule\<close> whenever the effect runs), so the call
  registers the callback and arms a timer, and the callback is called.
\<close>

theorem handle_revived_counterexample:
  "\<not> live (managers (cleanup 1 (effect 1 init)) 1) \<and>
   live (managers remounted 1) \<and>
   map cid (callbacks (groups (schedule 1 (Fn 10 []) (Num 100) [] remounted) 0)) = [0] \<and>
   timers (schedule 1 (Fn 10 []) (Num 100) [] remounted) = [(0, Tick 0)] \<and>
   trace (fire 0 (schedule 1 (Fn 10 []) (Num 100) [] remounted)) = [Invoked 0 10 []]"
  unfolding remounted_def by code_simp

text \<open>
  C7, amended. A manager starts with \<open>doSchedule\<close> and \<open>doCancel\<close> set to \<open>noop\<close>, and while
  they are \<open>noop\<close> a call of \<open>schedule\<close> or \<open>cancel\<close> returns the state it was given. The
  cleanup of the effect sets them back to \<open>noop\<close>, so every sequence of \<open>schedule\<close> and
  \<open>cancel\<close> calls made on the handle after it changes nothing; and the arrow function the
  handle had registered is then in no scheduler's array. A run of the effect, the first or
  a later one, installs \<open>doSchedule\<close> and \<open>doCancel\<close> with nothing registered.
\<close>

theorem handle_inert_while_noop:
  "\<not> live (managers init h) \<and>
   (\<not> live (managers s h) \<longrightarrow> schedule h cb ms args s = s \<and> cancel h s = s) \<and>
   \<not> live (managers (cleanup h s) h) \<and>
   handle_calls h cs (cleanup h s) = cleanup h s \<and>
   (wf_at cur s \<and> live (managers s h) \<and> abort (managers s h) = Some (g, c) \<longrightarrow>
      cid c \<notin> cid ` set (callbacks (groups (cleanup h s) g'))) \<and>
   live (managers (effect h s) h) \<and> abort (managers (effect h s) h) = None"
  using doCancel_removes [of cur s h g c g']
  by (simp add: init_def schedule_def cancel_def doSchedule_not_live doCancel_not_live
      cleanup_not_live handle_calls_not_live cleanup_callbacks effect_def)

definition one_handle :: state where
  "one_handle = schedule 1 (Fn 10 []) (Num 100) [] (effect 1 init)"

theorem handle_inert_while_noop_witness:
  "\<not> live (managers init 1) \<and> schedule 1 (Fn 10 []) (Num 100) [] init = init \<and>
   cancel 1 init = init \<and>
   wf_at None one_handle \<and> live (managers one_handle 1) \<and>
   abort (managers one_handle 1) = Some (0, \<lparr>cid = 0, cfn = Fn 10 [], cargs = []\<rparr>) \<and>
   map cid (callbacks (groups one_handle 0)) = [0] \<and>
   0 \<notin> cid ` set (callbacks (groups (cleanup 1 one_handle) 0)) \<and>
   handle_calls 1 [CallSchedule (Fn 10 []) (Num 100) [], CallCancel] (cleanup 1 one_handle)
     = cleanup 1 one_handle \<and>
   live (managers (effect 1 (cleanup 1 one_handle)) 1)"
proof -
  have wf: "wf_at None one_handle"
    unfolding one_handle_def schedule_def by (intro wf_at_doSchedule wf_at_effect wf_at_init)
  have e: "live (managers one_handle 1)"
    "abort (managers one_handle 1) = Some (0, \<lparr>cid = 0, cfn = Fn 10 [], cargs = []\<rparr>)"
    "map cid (callbacks (groups one_handle 0)) = [0]"
    unfolding one_handle_def by code_simp+
  have i: "\<not> live (managers init 1)" by (simp add: init_def)
  from handle_inert_while_noop [of 1 init "Fn 10 []" "Num 100" "[]"] i
  have a: "schedule 1 (Fn 10 []) (Num 100) [] init = init" "cancel 1 init = init" by simp_all
  from handle_inert_while_noop
    [of 1 one_handle _ _ _ "[CallSchedule (Fn 10 []) (Num 100) [], CallCancel]" None 0
       "\<lparr>cid = 0, cfn = Fn 10 [], cargs = []\<rparr>" 0] wf e
  have b: "0 \<notin> cid ` set (callbacks (groups (cleanup 1 one_handle) 0))"
    "handle_calls 1 [CallSchedule (Fn 10 []) (Num 100) [], CallCancel] (cleanup 1 one_handle)
       = cleanup 1 one_handle"
    by simp_all
  from handle_inert_while_noop [of 1 "cleanup 1 one_handle"]
  have c: "live (managers (effect 1 (cleanup 1 one_handle)) 1)" by simp
  from wf e i a b c show ?thesis by simp
qed

section \<open>A callback added while a tick is running\<close>







end
